theory Spec2Isabelle
  imports Main
begin

section \<open>The buffer manager of buffer.cpp\<close>

text \<open>
  A shallow embedding of \<^verbatim>\<open>src/src/buffer.cpp\<close> (class \<^verbatim>\<open>BufMgr\<close>). Every
  member function becomes a function from the manager's state to the state it leaves
  behind, paired with its outcome: \<open>Inr\<close> the returned value, \<open>Inl\<close> the exception that
  left the function. The state is returned in both cases, because what a C++ function
  has written before it throws stays written.

  A \<^verbatim>\<open>File*\<close> is an address, with \<open>NULL\<close> the null pointer; a pointer into the pool
  (\<^verbatim>\<open>bufPool + frameNo\<close>) is modelled by the frame number it points at.
\<close>

text \<open>
  Modelled from the spec: \<^verbatim>\<open>FrameId\<close> and \<^verbatim>\<open>PageId\<close> are declared in a header that is
  not among the sources. The spec (section 3) makes both unsigned integers; they are
  modelled as \<open>nat\<close>.
\<close>

type_synonym FileP = nat
type_synonym PageId = nat
type_synonym FrameId = nat

definition NULL :: FileP where
  "NULL = 0"

text \<open>
  Modelled from the spec: the class \<^verbatim>\<open>Page\<close> is not among the sources. The spec
  (section 2): a page is a fixed-size binary unit with an identity, opaque to the
  manager. The manager only asks a page for its number (\<^verbatim>\<open>page_number()\<close>, in
  \<^verbatim>\<open>allocPage\<close>); the bytes are kept as a list.
\<close>

record Page =
  page_number :: PageId
  bytes :: "nat list"

text \<open>
  Modelled from the spec: the class \<^verbatim>\<open>BufDesc\<close> is declared in buffer.h, which is not
  among the sources. The record has the fields that buffer.cpp reads and writes, with
  the types of the spec's section 3; \<open>pinCnt\<close> is the number of outstanding pins, a
  \<open>nat\<close>. The field \<^verbatim>\<open>file\<close> is named \<open>file_ptr\<close>, since \<open>file\<close> is a keyword of
  Isabelle.
\<close>

record BufDesc =
  file_ptr :: FileP
  pageNo :: PageId
  frameNo :: FrameId
  pinCnt :: nat
  dirty :: bool
  refbit :: bool
  valid :: bool

text \<open>
  Modelled from the spec: \<^verbatim>\<open>BufDesc::Clear\<close> and \<^verbatim>\<open>BufDesc::Set\<close> are declared in
  buffer.h, which is not among the sources. The spec (section 3): Clear resets a
  descriptor to the invalid state (\<open>valid = false\<close>, \<open>pinCnt = 0\<close>, \<open>dirty = false\<close>,
  \<open>refbit = false\<close>, \<open>file\<close> none); Set makes it valid with \<open>pinCnt = 1\<close>,
  \<open>dirty = false\<close>, \<open>refbit = true\<close> and the given identity. The spec does not say
  what Clear leaves in \<open>pageNo\<close>; the model leaves it as it is, and no theorem below
  depends on it.
\<close>

definition Clear :: "BufDesc \<Rightarrow> BufDesc" where
  "Clear d = d\<lparr>file_ptr := NULL, pinCnt := 0, dirty := False, refbit := False, valid := False\<rparr>"

definition Set_desc :: "FileP \<Rightarrow> PageId \<Rightarrow> BufDesc \<Rightarrow> BufDesc" where
  "Set_desc f p d =
     d\<lparr>file_ptr := f, pageNo := p, pinCnt := 1, dirty := False, refbit := True, valid := True\<rparr>"

text \<open>
  Modelled from the spec: the class \<^verbatim>\<open>File\<close> is not among the sources. The spec
  (section 6) lists the four calls the manager makes on a file: \<^verbatim>\<open>allocatePage()\<close>,
  \<^verbatim>\<open>readPage(pageNo)\<close>, \<^verbatim>\<open>writePage(page)\<close> and \<^verbatim>\<open>deletePage(pageNo)\<close>. The model
  records each call, in order, and takes what a call returns (the page read, the page
  allocated) as an argument of the operation that makes it. A call that fails inside
  the file class is outside the model.
\<close>

datatype io_event =
    AllocatePage FileP
  | ReadPage FileP PageId
  | WritePage FileP Page
  | DeletePage FileP PageId

text \<open>
  The exceptions buffer.cpp throws, with the arguments it gives them. \<open>Undefined\<close>
  stands for the places where the C++ has no defined behaviour or breaks the contract
  of a collaborator: the remainder by \<open>numBufs = 0\<close>, an index outside the descriptor
  table or the pool, a member call through a null \<^verbatim>\<open>File*\<close>, an insert of a key the
  page table has and a remove of a key it lacks.
\<close>

datatype error =
    BufferExceeded
  | PageNotPinned PageId FrameId
  | PagePinned PageId FrameId
  | BadBuffer FrameId bool bool bool
  | Undefined

text \<open>
  The fields of \<^verbatim>\<open>BufMgr\<close>. \<open>hashTable\<close> is the page table, a finite map from
  \<open>(file, pageNo)\<close> to a frame. \<open>io\<close> is not a field of the class: it is the trace of
  the calls made on files so far.
\<close>

record BufMgr =
  numBufs :: nat
  bufDescTable :: "BufDesc list"
  bufPool :: "Page list"
  hashTable :: "(FileP \<times> PageId) \<rightharpoonup> FrameId"
  clockHand :: FrameId
  io :: "io_event list"

type_synonym 'a outcome = "BufMgr \<times> (error + 'a)"

subsection \<open>The page table\<close>

text \<open>
  Modelled from the spec: \<^verbatim>\<open>BufHashTbl\<close> is not among the sources. The spec
  (section 6): \<open>lookup\<close> returns the mapped frame or signals absence (the
  \<^verbatim>\<open>HashNotFoundException\<close> the manager catches); \<open>insert\<close> adds a mapping, the caller
  guarantees absence; \<open>remove\<close> removes a mapping, the caller guarantees presence.
  Where the caller's guarantee fails the model returns \<open>None\<close>, and the operation
  that made the call ends with \<open>Undefined\<close>.
\<close>

definition ht_lookup :: "FileP \<Rightarrow> PageId \<Rightarrow> BufMgr \<Rightarrow> FrameId option" where
  "ht_lookup f p s = hashTable s (f, p)"

definition ht_insert :: "FileP \<Rightarrow> PageId \<Rightarrow> FrameId \<Rightarrow> BufMgr \<Rightarrow> BufMgr option" where
  "ht_insert f p fr s =
     (case hashTable s (f, p) of
        Some _ \<Rightarrow> None
      | None \<Rightarrow> Some (s\<lparr>hashTable := (hashTable s)((f, p) \<mapsto> fr)\<rparr>))"

definition ht_remove :: "FileP \<Rightarrow> PageId \<Rightarrow> BufMgr \<Rightarrow> BufMgr option" where
  "ht_remove f p s =
     (case hashTable s (f, p) of
        None \<Rightarrow> None
      | Some _ \<Rightarrow> Some (s\<lparr>hashTable := (hashTable s)((f, p) := None)\<rparr>))"

subsection \<open>Construction\<close>

text \<open>
  Modelled from the spec: the constructors of \<^verbatim>\<open>BufDesc\<close> and \<^verbatim>\<open>Page\<close> are not among
  the sources. A fresh descriptor is in the cleared state of the spec's section 3, with
  page number 0; a fresh page is empty.
\<close>

definition fresh_desc :: "FrameId \<Rightarrow> BufDesc" where
  "fresh_desc i =
     \<lparr>file_ptr = NULL, pageNo = 0, frameNo = i, pinCnt = 0,
      dirty = False, refbit = False, valid = False\<rparr>"

definition empty_page :: Page where
  "empty_page = \<lparr>page_number = 0, bytes = []\<rparr>"

text \<open>
  \<^verbatim>\<open>BufMgr::BufMgr(bufs)\<close>: every descriptor gets its frame number and
  \<open>valid = false\<close>; the hand starts at \<open>bufs - 1\<close>, computed in 32-bit unsigned
  arithmetic. The size of the hash table plays no part in the model.
\<close>

definition BufMgr_new :: "nat \<Rightarrow> BufMgr" where
  "BufMgr_new bufs =
     \<lparr>numBufs = bufs,
      bufDescTable = map fresh_desc [0..<bufs],
      bufPool = map (\<lambda>i. empty_page) [0..<bufs],
      hashTable = Map.empty,
      clockHand = (if bufs = 0 then 2 ^ 32 - 1 else bufs - 1),
      io = []\<rparr>"

subsection \<open>The clock\<close>

text \<open>
  \<^verbatim>\<open>advanceClock\<close>: \<^verbatim>\<open>clockHand++\<close>, then \<^verbatim>\<open>clockHand %= numBufs\<close>. Both are
  32-bit unsigned in the C++. In a manager built by the constructor
  \<open>clockHand < numBufs < 2 ^ 32\<close>, so the increment does not wrap, and the model
  computes in \<open>nat\<close>. The remainder by \<open>numBufs = 0\<close> is undefined in C++ (in HOL
  \<open>x mod 0 = x\<close>): \<open>allocBuf_loop\<close> tests for it before it advances the hand.
  \<open>upd_desc i g\<close> is an assignment to fields of \<^verbatim>\<open>bufDescTable[i]\<close>; where the C++
  makes one, the model has tested that \<open>i\<close> is inside the table.
\<close>

definition advanceClock :: "BufMgr \<Rightarrow> BufMgr" where
  "advanceClock s = s\<lparr>clockHand := (clockHand s + 1) mod numBufs s\<rparr>"

definition upd_desc :: "FrameId \<Rightarrow> (BufDesc \<Rightarrow> BufDesc) \<Rightarrow> BufMgr \<Rightarrow> BufMgr" where
  "upd_desc i g s = s\<lparr>bufDescTable := (bufDescTable s)[i := g (bufDescTable s ! i)]\<rparr>"

text \<open>
  The \<^verbatim>\<open>do ... while (true)\<close> of \<^verbatim>\<open>allocBuf\<close>, with the local \<open>pinnedCnt\<close> as
  an argument. \<open>Inr ()\<close> is a \<^verbatim>\<open>break\<close>: the hand stands on the chosen frame.
  The first test is not in the C++: it gives \<open>Undefined\<close> for the remainder by zero
  of \<^verbatim>\<open>advanceClock\<close>, and for a count that \<^verbatim>\<open>allocBuf\<close>, which starts at 0 and
  throws at \<open>numBufs\<close>, never reaches.
\<close>

function allocBuf_loop :: "BufMgr \<Rightarrow> nat \<Rightarrow> unit outcome" where
  "allocBuf_loop s pinnedCnt =
     (if numBufs s = 0 \<or> numBufs s \<le> pinnedCnt then (s, Inl Undefined)
      else
        let s1 = advanceClock s; h = clockHand s1 in
        if length (bufDescTable s1) \<le> h then (s1, Inl Undefined)
        else if \<not> valid (bufDescTable s1 ! h) then (s1, Inr ())
        else if refbit (bufDescTable s1 ! h) then
          allocBuf_loop (upd_desc h (\<lambda>d. d\<lparr>refbit := False\<rparr>) s1) pinnedCnt
        else if pinCnt (bufDescTable s1 ! h) \<noteq> 0 then
          (if pinnedCnt + 1 = numBufs s1 then (s1, Inl BufferExceeded)
           else allocBuf_loop s1 (pinnedCnt + 1))
        else (s1, Inr ()))"
  by pat_completeness auto

text \<open>
  \<^verbatim>\<open>allocBuf\<close>: the sweep, then the eviction of the chosen frame (lines 91 to 103).
  The frame is returned through the reference argument \<^verbatim>\<open>frame\<close>.
\<close>

definition allocBuf :: "BufMgr \<Rightarrow> FrameId outcome" where
  "allocBuf s =
     (case allocBuf_loop s 0 of
        (s1, Inl e) \<Rightarrow> (s1, Inl e)
      | (s1, Inr _) \<Rightarrow>
          let h = clockHand s1; d = bufDescTable s1 ! h in
          if valid d then
            if dirty d \<and> (file_ptr d = NULL \<or> length (bufPool s1) \<le> h) then (s1, Inl Undefined)
            else
              let s2 = (if dirty d then s1\<lparr>io := io s1 @ [WritePage (file_ptr d) (bufPool s1 ! h)]\<rparr>
                        else s1) in
              case ht_remove (file_ptr d) (pageNo d) s2 of
                None \<Rightarrow> (s2, Inl Undefined)
              | Some s3 \<Rightarrow> (upd_desc h Clear s3, Inr h)
          else (upd_desc h Clear s1, Inr h))"

subsection \<open>The public operations\<close>

text \<open>
  \<^verbatim>\<open>readPage(file, pageNo, page)\<close>. The argument \<open>fromFile\<close> is the page that
  \<^verbatim>\<open>file->readPage(pageNo)\<close> returns when the manager calls it; the result is the frame
  of the pool slot that \<^verbatim>\<open>page\<close> is set to.
\<close>

definition readPage :: "FileP \<Rightarrow> PageId \<Rightarrow> Page \<Rightarrow> BufMgr \<Rightarrow> FrameId outcome" where
  "readPage f p fromFile s =
     (case ht_lookup f p s of
        Some targetFrame \<Rightarrow>
          if length (bufDescTable s) \<le> targetFrame then (s, Inl Undefined)
          else (upd_desc targetFrame (\<lambda>d. d\<lparr>refbit := True, pinCnt := pinCnt d + 1\<rparr>) s,
                Inr targetFrame)
      | None \<Rightarrow>
          (case allocBuf s of
             (s1, Inl e) \<Rightarrow> (s1, Inl e)
           | (s1, Inr fr) \<Rightarrow>
               if f = NULL \<or> length (bufPool s1) \<le> fr then (s1, Inl Undefined)
               else
                 let s2 = s1\<lparr>io := io s1 @ [ReadPage f p], bufPool := (bufPool s1)[fr := fromFile]\<rparr> in
                 case ht_insert f p fr s2 of
                   None \<Rightarrow> (s2, Inl Undefined)
                 | Some s3 \<Rightarrow> (upd_desc fr (Set_desc f p) s3, Inr fr)))"

definition unPinPage :: "FileP \<Rightarrow> PageId \<Rightarrow> bool \<Rightarrow> BufMgr \<Rightarrow> unit outcome" where
  "unPinPage f p isDirty s =
     (case ht_lookup f p s of
        None \<Rightarrow> (s, Inr ())
      | Some targetFrame \<Rightarrow>
          if length (bufDescTable s) \<le> targetFrame then (s, Inl Undefined)
          else if pinCnt (bufDescTable s ! targetFrame) = 0
            then (s, Inl (PageNotPinned p targetFrame))
          else
            let s1 = upd_desc targetFrame (\<lambda>d. d\<lparr>pinCnt := pinCnt d - 1\<rparr>) s in
            if isDirty then (upd_desc targetFrame (\<lambda>d. d\<lparr>dirty := True\<rparr>) s1, Inr ())
            else (s1, Inr ()))"

text \<open>
  \<^verbatim>\<open>allocPage(file, pageNo, page)\<close>. The argument \<open>newPage\<close> is the page that
  \<^verbatim>\<open>file->allocatePage()\<close> returns; the result is the new page number and the frame.
\<close>

definition allocPage :: "FileP \<Rightarrow> Page \<Rightarrow> BufMgr \<Rightarrow> (PageId \<times> FrameId) outcome" where
  "allocPage f newPage s =
     (if f = NULL then (s, Inl Undefined)
      else
        let s0 = s\<lparr>io := io s @ [AllocatePage f]\<rparr>;
            newPageNo = page_number newPage in
        case allocBuf s0 of
          (s1, Inl e) \<Rightarrow> (s1, Inl e)
        | (s1, Inr fr) \<Rightarrow>
            if length (bufPool s1) \<le> fr then (s1, Inl Undefined)
            else
              let s2 = s1\<lparr>bufPool := (bufPool s1)[fr := newPage]\<rparr> in
              case ht_insert f newPageNo fr s2 of
                None \<Rightarrow> (s2, Inl Undefined)
              | Some s3 \<Rightarrow> (upd_desc fr (Set_desc f newPageNo) s3, Inr (newPageNo, fr)))"

definition disposePage :: "FileP \<Rightarrow> PageId \<Rightarrow> BufMgr \<Rightarrow> unit outcome" where
  "disposePage f p s =
     (let r = (case ht_lookup f p s of
                 None \<Rightarrow> Some s
               | Some fr \<Rightarrow>
                   if length (bufDescTable s) \<le> fr then None
                   else ht_remove f p (upd_desc fr Clear s)) in
      case r of
        None \<Rightarrow> (s, Inl Undefined)
      | Some s1 \<Rightarrow>
          if f = NULL then (s1, Inl Undefined)
          else (s1\<lparr>io := io s1 @ [DeletePage f p]\<rparr>, Inr ()))"

text \<open>
  \<^verbatim>\<open>flushFile(file)\<close>. \<open>flushFrame\<close> is the body of the \<^verbatim>\<open>for\<close> loop at frame
  \<open>i\<close>, \<open>flushFile_loop\<close> the loop from \<open>i\<close> up to the bound \<open>n\<close>. The bound is
  \<^verbatim>\<open>(int)numBufs\<close>: for \<open>numBufs\<close> from \<open>2 ^ 31\<close> on the 32-bit conversion gives a
  negative number and the body never runs.
\<close>

definition flushFrame :: "FileP \<Rightarrow> nat \<Rightarrow> BufMgr \<Rightarrow> unit outcome" where
  "flushFrame f i s =
     (if length (bufDescTable s) \<le> i then (s, Inl Undefined)
      else
        let d = bufDescTable s ! i in
        if file_ptr d = f then
          if pinCnt d \<noteq> 0 then (s, Inl (PagePinned (pageNo d) i))
          else if \<not> valid d then (s, Inl (BadBuffer i (dirty d) (valid d) (refbit d)))
          else if dirty d \<and> (f = NULL \<or> length (bufPool s) \<le> i) then (s, Inl Undefined)
          else
            let s1 = (if dirty d then s\<lparr>io := io s @ [WritePage f (bufPool s ! i)]\<rparr> else s) in
            case ht_remove f (pageNo d) s1 of
              None \<Rightarrow> (s1, Inl Undefined)
            | Some s2 \<Rightarrow> (upd_desc i Clear s2, Inr ())
        else (s, Inr ()))"

function flushFile_loop :: "FileP \<Rightarrow> nat \<Rightarrow> nat \<Rightarrow> BufMgr \<Rightarrow> unit outcome" where
  "flushFile_loop f i n s =
     (if n \<le> i then (s, Inr ())
      else
        case flushFrame f i s of
          (s1, Inl e) \<Rightarrow> (s1, Inl e)
        | (s1, Inr _) \<Rightarrow> flushFile_loop f (i + 1) n s1)"
  by pat_completeness auto

definition int_numBufs :: "BufMgr \<Rightarrow> nat" where
  "int_numBufs s = (if numBufs s < 2 ^ 31 then numBufs s else 0)"

definition flushFile :: "FileP \<Rightarrow> BufMgr \<Rightarrow> unit outcome" where
  "flushFile f s = flushFile_loop f 0 (int_numBufs s) s"

subsection \<open>Calls and runs\<close>

text \<open>
  A call of a public operation with its arguments, the state a call leaves behind
  (whether it returned or threw), and the state after a sequence of calls.
\<close>

datatype call =
    ReadPageC FileP PageId Page
  | UnPinPageC FileP PageId bool
  | AllocPageC FileP Page
  | DisposePageC FileP PageId
  | FlushFileC FileP

fun state_after :: "call \<Rightarrow> BufMgr \<Rightarrow> BufMgr" where
  "state_after (ReadPageC f p pg) s = fst (readPage f p pg s)"
| "state_after (UnPinPageC f p b) s = fst (unPinPage f p b s)"
| "state_after (AllocPageC f pg) s = fst (allocPage f pg s)"
| "state_after (DisposePageC f p) s = fst (disposePage f p s)"
| "state_after (FlushFileC f) s = fst (flushFile f s)"

fun run :: "call list \<Rightarrow> BufMgr \<Rightarrow> BufMgr" where
  "run [] s = s"
| "run (c # cs) s = run cs (state_after c s)"

text \<open>
  \<open>clears_frame c s i\<close>: the call \<open>c\<close>, made in state \<open>s\<close>, reaches a \<^verbatim>\<open>Clear\<close> of the
  descriptor of frame \<open>i\<close>: \<^verbatim>\<open>allocBuf\<close> chooses \<open>i\<close> for a page that is read or
  allocated, the page in \<open>i\<close> is disposed of, or the file of \<open>i\<close> is flushed.
  \<open>cleared_in cs s i\<close>: some call of the sequence \<open>cs\<close>, run from \<open>s\<close>, does.
\<close>

fun clears_frame :: "call \<Rightarrow> BufMgr \<Rightarrow> FrameId \<Rightarrow> bool" where
  "clears_frame (ReadPageC f p pg) s i = (hashTable s (f, p) = None \<and> snd (allocBuf s) = Inr i)"
| "clears_frame (UnPinPageC f p b) s i = False"
| "clears_frame (AllocPageC f pg) s i =
     (f \<noteq> NULL \<and> snd (allocBuf (s\<lparr>io := io s @ [AllocatePage f]\<rparr>)) = Inr i)"
| "clears_frame (DisposePageC f p) s i = (hashTable s (f, p) = Some i)"
| "clears_frame (FlushFileC f) s i = (file_ptr (bufDescTable s ! i) = f)"

fun cleared_in :: "call list \<Rightarrow> BufMgr \<Rightarrow> FrameId \<Rightarrow> bool" where
  "cleared_in [] s i = False"
| "cleared_in (c # cs) s i = (clears_frame c s i \<or> cleared_in cs (state_after c s) i)"

fun read_or_unpin :: "call \<Rightarrow> bool" where
  "read_or_unpin (ReadPageC f p pg) = True"
| "read_or_unpin (UnPinPageC f p b) = True"
| "read_or_unpin (AllocPageC f pg) = False"
| "read_or_unpin (DisposePageC f p) = False"
| "read_or_unpin (FlushFileC f) = False"

subsection \<open>Predicates on states\<close>

text \<open>
  \<open>wf_mgr\<close>: the object is as the constructor builds it and the operations keep it:
  at least one frame, both arrays of \<open>numBufs\<close> entries, the hand inside the table.
  \<open>pinned_desc\<close>: a descriptor that holds a pinned page. \<open>clear_refbit\<close>: what the
  sweep does to a descriptor. \<open>since_visit n c i\<close> counts the advances of the hand
  since it stood on frame \<open>i\<close>, when it stands on \<open>c\<close>; \<open>steps_to n c i\<close> counts the
  advances that take it from \<open>c\<close> to \<open>i\<close>.
\<close>

definition wf_mgr :: "BufMgr \<Rightarrow> bool" where
  "wf_mgr s \<longleftrightarrow> 0 < numBufs s \<and> length (bufDescTable s) = numBufs s \<and> length (bufPool s) = numBufs s \<and> clockHand s < numBufs s"

definition pinned_desc :: "BufDesc \<Rightarrow> bool" where
  "pinned_desc d \<longleftrightarrow> valid d \<and> pinCnt d \<noteq> 0"

definition since_visit :: "nat \<Rightarrow> nat \<Rightarrow> nat \<Rightarrow> nat" where
  "since_visit n c i = (if i \<le> c then c - i else c + n - i)"

definition steps_to :: "nat \<Rightarrow> nat \<Rightarrow> nat \<Rightarrow> nat" where
  "steps_to n c i = (if c < i then i - c else i + n - c)"


text \<open>
  \<open>names_page f p d\<close>: the descriptor holds page \<open>p\<close> of file \<open>f\<close>.
  \<open>resident f p s\<close>: the page table or a descriptor of \<open>s\<close> refers to that page.
\<close>

definition names_page :: "FileP \<Rightarrow> PageId \<Rightarrow> BufDesc \<Rightarrow> bool" where
  "names_page f p d \<longleftrightarrow> valid d \<and> file_ptr d = f \<and> pageNo d = p"

definition resident :: "FileP \<Rightarrow> PageId \<Rightarrow> BufMgr \<Rightarrow> bool" where
  "resident f p s \<longleftrightarrow> hashTable s (f, p) \<noteq> None \<or> list_ex (names_page f p) (bufDescTable s)"

text \<open>
  \<open>ident d\<close>: what a descriptor says about the page it holds. \<open>pt_inv\<close>: the
  invariant between the descriptors and the page table. Every descriptor carries its
  own frame number; a valid descriptor names a file and the page table maps its
  \<open>(file, pageNo)\<close> to its frame; and every entry of the page table targets a frame of
  the table that is valid and holds the entry's file and page.
\<close>

definition ident :: "BufDesc \<Rightarrow> bool \<times> FileP \<times> PageId \<times> FrameId" where
  "ident d = (valid d, file_ptr d, pageNo d, frameNo d)"

definition pt_inv :: "BufMgr \<Rightarrow> bool" where
  "pt_inv s \<longleftrightarrow> wf_mgr s \<and>
     (\<forall>i<numBufs s. frameNo (bufDescTable s ! i) = i \<and>
        (valid (bufDescTable s ! i) \<longrightarrow>
           file_ptr (bufDescTable s ! i) \<noteq> NULL \<and>
           hashTable s (file_ptr (bufDescTable s ! i), pageNo (bufDescTable s ! i)) = Some i)) \<and>
     (\<forall>f p i. hashTable s (f, p) = Some i \<longrightarrow>
        i < numBufs s \<and> valid (bufDescTable s ! i) \<and>
        file_ptr (bufDescTable s ! i) = f \<and> pageNo (bufDescTable s ! i) = p)"

text \<open>The number of reference bits that are set: the sweep clears one at a time.\<close>

definition refbits :: "BufMgr \<Rightarrow> nat" where
  "refbits s = length (filter refbit (bufDescTable s))"

definition clear_refbit :: "BufDesc \<Rightarrow> BufDesc" where
  "clear_refbit d = d\<lparr>refbit := False\<rparr>"

text \<open>
  What \<^verbatim>\<open>flushFile(f)\<close> has done once it is past the frames below \<open>k\<close>: the
  descriptors of \<open>f\<close> among them are cleared (\<open>flushed_table\<close>), the dirty ones have
  been written, in frame order (\<open>flushed_writes\<close>), and their keys are gone from the page
  table (\<open>flushed_keys\<close>).
\<close>

definition flushed_table :: "FileP \<Rightarrow> nat \<Rightarrow> BufDesc list \<Rightarrow> BufDesc list" where
  "flushed_table f k t =
     map (\<lambda>j. if j < k \<and> file_ptr (t ! j) = f then Clear (t ! j) else t ! j) [0..<length t]"

definition flushed_writes :: "FileP \<Rightarrow> nat \<Rightarrow> BufMgr \<Rightarrow> io_event list" where
  "flushed_writes f k s =
     map (\<lambda>j. WritePage f (bufPool s ! j))
       (filter (\<lambda>j. file_ptr (bufDescTable s ! j) = f \<and> dirty (bufDescTable s ! j)) [0..<k])"

definition flushed_keys :: "FileP \<Rightarrow> nat \<Rightarrow> BufDesc list \<Rightarrow> (FileP \<times> PageId) set" where
  "flushed_keys f k t = (\<lambda>j. (f, pageNo (t ! j))) ` {j. j < k \<and> file_ptr (t ! j) = f}"

subsection \<open>Scenarios\<close>

text \<open>
  The states of the spec's concrete scenarios (section 8): a pool of three frames and
  one file, at address 1. \<open>pinned3\<close> is the pool after pages 1, 2 and 3 have been
  read and none unpinned.
\<close>

definition page_of :: "PageId \<Rightarrow> Page" where
  "page_of n = \<lparr>page_number = n, bytes = []\<rparr>"

definition pinned3 :: BufMgr where
  "pinned3 =
     run [ReadPageC 1 1 (page_of 1), ReadPageC 1 2 (page_of 2), ReadPageC 1 3 (page_of 3)]
       (BufMgr_new 3)"

text \<open>
  \<open>pinned3_hit\<close>: from \<open>pinned3\<close>, a read of page 4 (which fails, the pool being
  full of pinned pages) and a second read of page 1 (a hit).
\<close>

definition pinned3_hit :: BufMgr where
  "pinned3_hit = run [ReadPageC 1 4 (page_of 4), ReadPageC 1 1 (page_of 1)] pinned3"

text \<open>
  \<open>dirty2\<close>: from \<open>pinned3\<close>, page 2 is unpinned with the dirty flag.
\<close>

definition dirty2 :: BufMgr where
  "dirty2 = run [UnPinPageC 1 2 True] pinned3"

text \<open>
  \<open>loaded8\<close>: a new pool of three frames after page 8 has been read and unpinned.
\<close>

definition loaded8 :: BufMgr where
  "loaded8 = run [ReadPageC 1 8 (page_of 8), UnPinPageC 1 8 False] (BufMgr_new 3)"

text \<open>
  \<open>unpinned1\<close>: from \<open>pinned3\<close>, page 1 is unpinned with the dirty flag; pages 2 and
  3 stay pinned.
\<close>

definition unpinned1 :: BufMgr where
  "unpinned1 = run [UnPinPageC 1 1 True] pinned3"

text \<open>
  \<open>referenced3\<close>: from \<open>pinned3\<close>, a read of page 4 fails and clears every
  reference bit; page 3 is then read once more and unpinned twice. Pages 1 and 2 are
  pinned with clear reference bits; page 3 is unpinned, its reference bit set.
\<close>

definition referenced3 :: BufMgr where
  "referenced3 =
     run [ReadPageC 1 4 (page_of 4), ReadPageC 1 3 (page_of 3),
          UnPinPageC 1 3 False, UnPinPageC 1 3 False] pinned3"

section \<open>Termination of the loops\<close>

lemma filter_update_count:
  assumes "i < length xs" and "P (xs ! i)" and "\<not> P y"
  shows "Suc (length (filter P (xs[i := y]))) = length (filter P xs)"
  using assms
proof (induction xs arbitrary: i)
  case Nil
  then show ?case by simp
next
  case (Cons x xs)
  show ?case
  proof (cases i)
    case 0
    with Cons.prems show ?thesis by simp
  next
    case (Suc j)
    with Cons.prems have "Suc (length (filter P (xs[j := y]))) = length (filter P xs)"
      by (intro Cons.IH) simp_all
    with Suc show ?thesis by simp
  qed
qed

lemma refbits_sweep:
  assumes "h < length (bufDescTable s)" and "refbit (bufDescTable s ! h)"
  shows "Suc (refbits (upd_desc h (\<lambda>d. d\<lparr>refbit := False\<rparr>) (advanceClock s))) = refbits s"
  using filter_update_count [of h "bufDescTable s" refbit "(bufDescTable s ! h)\<lparr>refbit := False\<rparr>"] assms
  by (simp add: refbits_def upd_desc_def advanceClock_def)

termination allocBuf_loop
proof (relation "measure (\<lambda>(s, pinnedCnt). refbits s + (numBufs s - pinnedCnt))")
  show "wf (measure (\<lambda>(s, pinnedCnt). refbits s + (numBufs s - pinnedCnt)))"
    by simp
next
  fix s :: BufMgr and pinnedCnt :: nat and s1 h
  assume "\<not> (numBufs s = 0 \<or> numBufs s \<le> pinnedCnt)"
    and s1: "s1 = advanceClock s" and h: "h = clockHand s1"
    and "\<not> length (bufDescTable s1) \<le> h"
    and "\<not> \<not> valid (bufDescTable s1 ! h)"
    and "refbit (bufDescTable s1 ! h)"
  then have "refbits (upd_desc h (\<lambda>d. d\<lparr>refbit := False\<rparr>) s1) < refbits s"
    using refbits_sweep [of h s] by (simp add: advanceClock_def)
  then show "((upd_desc h (\<lambda>d. d\<lparr>refbit := False\<rparr>) s1, pinnedCnt), (s, pinnedCnt))
      \<in> measure (\<lambda>(s, pinnedCnt). refbits s + (numBufs s - pinnedCnt))"
    using s1 by (simp add: upd_desc_def advanceClock_def)
next
  fix s :: BufMgr and pinnedCnt :: nat and s1 h
  assume "\<not> (numBufs s = 0 \<or> numBufs s \<le> pinnedCnt)"
    and s1: "s1 = advanceClock s"
  then show "((s1, pinnedCnt + 1), (s, pinnedCnt))
      \<in> measure (\<lambda>(s, pinnedCnt). refbits s + (numBufs s - pinnedCnt))"
    by (simp add: refbits_def advanceClock_def) arith
qed

termination flushFile_loop
proof (relation "measure (\<lambda>(f, i, n, s). n - i)")
  show "wf (measure (\<lambda>(f :: FileP, i :: nat, n :: nat, s :: BufMgr). n - i))"
    by simp
next
  fix f :: FileP and i n :: nat and s s1 :: BufMgr
  assume "\<not> n \<le> i"
  then show "((f, i + 1, n, s1), (f, i, n, s)) \<in> measure (\<lambda>(f, i, n, s). n - i)"
    by simp
qed

section \<open>Evaluation\<close>

text \<open>
  The two loops are unfolded by hand in the proofs below. \<open>model_defs\<close> unfolds the
  whole model on a concrete state.
\<close>

declare allocBuf_loop.simps [simp del]
declare flushFile_loop.simps [simp del]

lemmas model_defs =
  page_of_def BufMgr_new_def fresh_desc_def empty_page_def NULL_def Clear_def Set_desc_def
  ht_lookup_def ht_insert_def ht_remove_def advanceClock_def upd_desc_def
  allocBuf_loop.simps allocBuf_def readPage_def unPinPage_def allocPage_def disposePage_def
  flushFrame_def flushFile_loop.simps int_numBufs_def flushFile_def upt_conv_Cons Let_def

section \<open>The clock sweep\<close>

text \<open>
  An induction rule for the loop of \<^verbatim>\<open>allocBuf\<close>, one case for each way through its
  body: \<open>P s k r\<close> relates the state and the count at the head of the loop to the
  outcome \<open>r\<close> of the loop from there.
\<close>

lemma allocBuf_loop_rule [consumes 0, case_names guard bounds invalid sweep exceeded pinned free]:
  assumes guard: "\<And>s k. numBufs s = 0 \<or> numBufs s \<le> k \<Longrightarrow> P s k (s, Inl Undefined)"
    and bounds: "\<And>s k. 0 < numBufs s \<Longrightarrow> k < numBufs s \<Longrightarrow>
        length (bufDescTable s) \<le> clockHand (advanceClock s) \<Longrightarrow>
        P s k (advanceClock s, Inl Undefined)"
    and invalid: "\<And>s k. 0 < numBufs s \<Longrightarrow> k < numBufs s \<Longrightarrow>
        clockHand (advanceClock s) < length (bufDescTable s) \<Longrightarrow>
        \<not> valid (bufDescTable s ! clockHand (advanceClock s)) \<Longrightarrow>
        P s k (advanceClock s, Inr ())"
    and sweep: "\<And>s k r. 0 < numBufs s \<Longrightarrow> k < numBufs s \<Longrightarrow>
        clockHand (advanceClock s) < length (bufDescTable s) \<Longrightarrow>
        valid (bufDescTable s ! clockHand (advanceClock s)) \<Longrightarrow>
        refbit (bufDescTable s ! clockHand (advanceClock s)) \<Longrightarrow>
        P (upd_desc (clockHand (advanceClock s)) (\<lambda>d. d\<lparr>refbit := False\<rparr>) (advanceClock s)) k r \<Longrightarrow>
        P s k r"
    and exceeded: "\<And>s k. 0 < numBufs s \<Longrightarrow> k < numBufs s \<Longrightarrow>
        clockHand (advanceClock s) < length (bufDescTable s) \<Longrightarrow>
        valid (bufDescTable s ! clockHand (advanceClock s)) \<Longrightarrow>
        \<not> refbit (bufDescTable s ! clockHand (advanceClock s)) \<Longrightarrow>
        pinCnt (bufDescTable s ! clockHand (advanceClock s)) \<noteq> 0 \<Longrightarrow>
        k + 1 = numBufs s \<Longrightarrow>
        P s k (advanceClock s, Inl BufferExceeded)"
    and pinned: "\<And>s k r. 0 < numBufs s \<Longrightarrow> k < numBufs s \<Longrightarrow>
        clockHand (advanceClock s) < length (bufDescTable s) \<Longrightarrow>
        valid (bufDescTable s ! clockHand (advanceClock s)) \<Longrightarrow>
        \<not> refbit (bufDescTable s ! clockHand (advanceClock s)) \<Longrightarrow>
        pinCnt (bufDescTable s ! clockHand (advanceClock s)) \<noteq> 0 \<Longrightarrow>
        k + 1 < numBufs s \<Longrightarrow>
        P (advanceClock s) (k + 1) r \<Longrightarrow>
        P s k r"
    and free: "\<And>s k. 0 < numBufs s \<Longrightarrow> k < numBufs s \<Longrightarrow>
        clockHand (advanceClock s) < length (bufDescTable s) \<Longrightarrow>
        valid (bufDescTable s ! clockHand (advanceClock s)) \<Longrightarrow>
        \<not> refbit (bufDescTable s ! clockHand (advanceClock s)) \<Longrightarrow>
        pinCnt (bufDescTable s ! clockHand (advanceClock s)) = 0 \<Longrightarrow>
        P s k (advanceClock s, Inr ())"
  shows "P s k (allocBuf_loop s k)"
proof (induction s k rule: allocBuf_loop.induct)
  case (1 s k)
  let ?s1 = "advanceClock s"
  let ?h = "clockHand ?s1"
  let ?d = "bufDescTable s ! ?h"
  have tab: "bufDescTable ?s1 = bufDescTable s" and nb: "numBufs ?s1 = numBufs s"
    by (simp_all add: advanceClock_def)
  show ?case
  proof (cases "numBufs s = 0 \<or> numBufs s \<le> k")
    case True
    then show ?thesis
      using guard [of s k] by (subst allocBuf_loop.simps) simp
  next
    case ok: False
    then have pos: "0 < numBufs s" "k < numBufs s" by simp_all
    show ?thesis
    proof (cases "length (bufDescTable s) \<le> ?h")
      case True
      then show ?thesis
        using ok bounds [OF pos] by (subst allocBuf_loop.simps) (simp add: Let_def tab)
    next
      case inb: False
      then have lt: "?h < length (bufDescTable s)" by simp
      show ?thesis
      proof (cases "valid ?d")
        case False
        then show ?thesis
          using ok inb invalid [OF pos lt] by (subst allocBuf_loop.simps) (simp add: Let_def tab)
      next
        case v: True
        show ?thesis
        proof (cases "refbit ?d")
          case True
          have "P (upd_desc ?h (\<lambda>d. d\<lparr>refbit := False\<rparr>) ?s1) k
                  (allocBuf_loop (upd_desc ?h (\<lambda>d. d\<lparr>refbit := False\<rparr>) ?s1) k)"
            using ok inb v True by (intro "1.IH"(1) [OF _ refl refl]) (simp_all add: tab)
          then have "P s k (allocBuf_loop (upd_desc ?h (\<lambda>d. d\<lparr>refbit := False\<rparr>) ?s1) k)"
            by (rule sweep [OF pos lt v True])
          then show ?thesis
            using ok inb v True by (subst allocBuf_loop.simps) (simp add: Let_def tab)
        next
          case nr: False
          show ?thesis
          proof (cases "pinCnt ?d = 0")
            case True
            then show ?thesis
              using ok inb v nr free [OF pos lt v nr]
              by (subst allocBuf_loop.simps) (simp add: Let_def tab)
          next
            case pin: False
            show ?thesis
            proof (cases "k + 1 = numBufs s")
              case True
              then show ?thesis
                using ok inb v nr pin exceeded [OF pos lt v nr pin]
                by (subst allocBuf_loop.simps) (simp add: Let_def tab nb)
            next
              case False
              with pos have less: "k + 1 < numBufs s" by simp
              have "P ?s1 (k + 1) (allocBuf_loop ?s1 (k + 1))"
                using ok inb v nr pin False
                by (intro "1.IH"(2) [OF _ refl refl]) (simp_all add: tab nb)
              then have "P s k (allocBuf_loop ?s1 (k + 1))"
                by (rule pinned [OF pos lt v nr pin less])
              then show ?thesis
                using ok inb v nr pin False
                by (subst allocBuf_loop.simps) (simp add: Let_def tab nb)
            qed
          qed
        qed
      qed
    qed
  qed
qed

lemma allocBuf_loop_frame:
  "numBufs (fst (allocBuf_loop s k)) = numBufs s \<and>
   hashTable (fst (allocBuf_loop s k)) = hashTable s \<and>
   bufPool (fst (allocBuf_loop s k)) = bufPool s \<and>
   io (fst (allocBuf_loop s k)) = io s \<and>
   map clear_refbit (bufDescTable (fst (allocBuf_loop s k))) = map clear_refbit (bufDescTable s)"
proof (induction s k rule: allocBuf_loop_rule)
  case (sweep s k r)
  then show ?case
    by (simp add: advanceClock_def upd_desc_def map_update clear_refbit_def list_update_same_conv)
qed (simp_all add: advanceClock_def)

lemma map_clear_refbit_update:
  "h < length xs \<Longrightarrow> map clear_refbit (xs[h := clear_refbit (xs ! h)]) = map clear_refbit xs"
  by (simp add: map_update list_update_same_conv clear_refbit_def)

lemma advanceClock_hand: "0 < numBufs s \<Longrightarrow> clockHand (advanceClock s) < numBufs s"
  by (simp add: advanceClock_def)

lemma wf_advanceClock: "wf_mgr s \<Longrightarrow> wf_mgr (advanceClock s)"
  by (simp add: wf_mgr_def advanceClock_def)

lemma wf_upd_desc: "wf_mgr s \<Longrightarrow> wf_mgr (upd_desc i g s)"
  by (simp add: wf_mgr_def upd_desc_def)

lemma since_visit_step:
  assumes "c < n" "i < n" "since_visit n ((c + 1) mod n) i < Suc k"
  shows "i = (c + 1) mod n \<or> since_visit n c i < k"
  using assms by (auto simp: since_visit_def mod_if split: if_splits)

lemma steps_to_step:
  assumes "c < n" "i < n" "i \<noteq> (c + 1) mod n"
  shows "Suc (steps_to n ((c + 1) mod n) i) = steps_to n c i"
  using assms by (auto simp: steps_to_def mod_if split: if_splits)

lemma steps_to_pos: "c < n \<Longrightarrow> i < n \<Longrightarrow> 0 < steps_to n c i \<and> steps_to n c i \<le> n"
  by (auto simp: steps_to_def)

lemma allocBuf_loop_outcome:
  "wf_mgr s \<Longrightarrow> k < numBufs s \<Longrightarrow>
   snd (allocBuf_loop s k) = Inl BufferExceeded \<or>
   snd (allocBuf_loop s k) = Inr () \<and> wf_mgr (fst (allocBuf_loop s k)) \<and>
     (\<not> valid (bufDescTable (fst (allocBuf_loop s k)) ! clockHand (fst (allocBuf_loop s k))) \<or>
      \<not> refbit (bufDescTable (fst (allocBuf_loop s k)) ! clockHand (fst (allocBuf_loop s k))) \<and>
      pinCnt (bufDescTable (fst (allocBuf_loop s k)) ! clockHand (fst (allocBuf_loop s k))) = 0)"
proof (induction s k rule: allocBuf_loop_rule)
  case (guard s k)
  then show ?case by (simp add: wf_mgr_def)
next
  case (bounds s k)
  then show ?case
    using advanceClock_hand [of s] by (simp add: wf_mgr_def)
next
  case (invalid s k)
  have "bufDescTable (advanceClock s) = bufDescTable s" by (simp add: advanceClock_def)
  with invalid show ?case using wf_advanceClock [of s] by simp
next
  case (sweep s k r)
  let ?s2 = "upd_desc (clockHand (advanceClock s)) (\<lambda>d. d\<lparr>refbit := False\<rparr>) (advanceClock s)"
  have "wf_mgr ?s2" using sweep.prems(1) by (simp add: wf_advanceClock wf_upd_desc)
  moreover have "k < numBufs ?s2" using sweep.hyps(2) by (simp add: upd_desc_def advanceClock_def)
  ultimately show ?case by (rule sweep.IH)
next
  case (exceeded s k)
  then show ?case by simp
next
  case (pinned s k r)
  have "wf_mgr (advanceClock s)" using pinned.prems(1) by (rule wf_advanceClock)
  moreover have "k + 1 < numBufs (advanceClock s)"
    using pinned.hyps(7) by (simp add: advanceClock_def)
  ultimately show ?case by (rule pinned.IH)
next
  case (free s k)
  have "bufDescTable (advanceClock s) = bufDescTable s" by (simp add: advanceClock_def)
  with free show ?case using wf_advanceClock [of s] by simp
qed

lemma allocBuf_loop_all_pinned:
  "wf_mgr s \<Longrightarrow> list_all pinned_desc (bufDescTable s) \<Longrightarrow> k < numBufs s \<Longrightarrow>
   (\<forall>i<numBufs s. since_visit (numBufs s) (clockHand s) i < k \<longrightarrow> \<not> refbit (bufDescTable s ! i)) \<Longrightarrow>
   snd (allocBuf_loop s k) = Inl BufferExceeded \<and>
   bufDescTable (fst (allocBuf_loop s k)) = map clear_refbit (bufDescTable s) \<and>
   clockHand (fst (allocBuf_loop s k)) =
     (clockHand s + refbits s + (numBufs s - k)) mod numBufs s"
proof (induction s k rule: allocBuf_loop_rule)
  case (guard s k)
  then show ?case by (simp add: wf_mgr_def)
next
  case (bounds s k)
  then show ?case
    using advanceClock_hand [of s] by (simp add: wf_mgr_def)
next
  case (invalid s k)
  then show ?case by (simp add: list_all_length pinned_desc_def)
next
  case (sweep s k r)
  define h where "h = clockHand (advanceClock s)"
  define s2 where "s2 = upd_desc h (\<lambda>d. d\<lparr>refbit := False\<rparr>) (advanceClock s)"
  have h: "h = (clockHand s + 1) mod numBufs s" by (simp add: h_def advanceClock_def)
  have hlt: "h < length (bufDescTable s)" using sweep.hyps(3) by (simp add: h_def)
  have wfs: "clockHand s < numBufs s" "length (bufDescTable s) = numBufs s"
    using sweep.prems(1) by (simp_all add: wf_mgr_def)
  have wf2: "wf_mgr s2" using sweep.prems(1) by (simp add: s2_def wf_advanceClock wf_upd_desc)
  have n2: "numBufs s2 = numBufs s" "clockHand s2 = h"
    by (simp_all add: s2_def h_def upd_desc_def advanceClock_def)
  have tab2: "bufDescTable s2 = (bufDescTable s)[h := clear_refbit (bufDescTable s ! h)]"
    by (simp add: s2_def upd_desc_def advanceClock_def clear_refbit_def)
  have pin2: "list_all pinned_desc (bufDescTable s2)"
    using sweep.prems(2) hlt unfolding tab2
    by (auto simp: list_all_length nth_list_update pinned_desc_def clear_refbit_def)
  have rc2: "\<forall>i<numBufs s2. since_visit (numBufs s2) (clockHand s2) i < k
               \<longrightarrow> \<not> refbit (bufDescTable s2 ! i)"
  proof (intro allI impI)
    fix i assume i: "i < numBufs s2" and sv: "since_visit (numBufs s2) (clockHand s2) i < k"
    from sv have "since_visit (numBufs s) ((clockHand s + 1) mod numBufs s) i < Suc k"
      by (simp add: n2 h)
    then have "i = h \<or> since_visit (numBufs s) (clockHand s) i < k"
      using since_visit_step [of "clockHand s" "numBufs s" i k] wfs i by (simp add: n2 h)
    then show "\<not> refbit (bufDescTable s2 ! i)"
      using sweep.prems(4) i hlt wfs unfolding tab2 n2
      by (cases "i = h") (auto simp: clear_refbit_def)
  qed
  have k2: "k < numBufs s2" using sweep.hyps(2) by (simp add: n2)
  have rb: "Suc (refbits s2) = refbits s"
    unfolding s2_def h_def using refbits_sweep [OF sweep.hyps(3,5)] .
  have e1: "(h + refbits s2 + (numBufs s - k)) mod numBufs s =
        (clockHand s + 1 + refbits s2 + (numBufs s - k)) mod numBufs s"
    unfolding h by (simp add: mod_add_left_eq add.assoc)
  have e2: "clockHand s + 1 + refbits s2 + (numBufs s - k) =
        clockHand s + refbits s + (numBufs s - k)"
    using rb by linarith
  have hand: "(h + refbits s2 + (numBufs s - k)) mod numBufs s =
        (clockHand s + refbits s + (numBufs s - k)) mod numBufs s"
    using e1 by (simp only: e2)
  have "snd r = Inl BufferExceeded \<and> bufDescTable (fst r) = map clear_refbit (bufDescTable s2) \<and>
        clockHand (fst r) = (clockHand s2 + refbits s2 + (numBufs s2 - k)) mod numBufs s2"
    using sweep.IH [folded h_def, folded s2_def, OF wf2 pin2 k2 rc2] .
  then show ?case
    unfolding tab2 using hlt hand by (simp add: map_clear_refbit_update n2)
next
  case (exceeded s k)
  define h where "h = clockHand (advanceClock s)"
  have h: "h = (clockHand s + 1) mod numBufs s" by (simp add: h_def advanceClock_def)
  have wfs: "clockHand s < numBufs s" "length (bufDescTable s) = numBufs s"
    using exceeded.prems(1) by (simp_all add: wf_mgr_def)
  have hn: "h < numBufs s" using wfs by (simp add: h)
  have "\<not> refbit (bufDescTable s ! i)" if i: "i < numBufs s" for i
  proof -
    have "since_visit (numBufs s) h i < Suc k"
      using i exceeded.hyps(7) hn by (auto simp: since_visit_def)
    then have "i = h \<or> since_visit (numBufs s) (clockHand s) i < k"
      using since_visit_step [of "clockHand s" "numBufs s" i k] wfs i by (simp add: h)
    then show ?thesis using exceeded.hyps(5) exceeded.prems(4) i by (auto simp: h_def)
  qed
  then have none: "\<forall>d \<in> set (bufDescTable s). \<not> refbit d"
    using wfs by (auto simp: in_set_conv_nth)
  then have "map clear_refbit (bufDescTable s) = bufDescTable s"
    by (auto simp: list_eq_iff_nth_eq clear_refbit_def)
  moreover have "refbits s = 0"
    using none by (simp add: refbits_def)
  moreover have "numBufs s - k = 1"
    using exceeded.hyps(7) by linarith
  ultimately show ?case
    by (simp add: advanceClock_def)
next
  case (pinned s k r)
  define h where "h = clockHand (advanceClock s)"
  define s1 where "s1 = advanceClock s"
  have h: "h = (clockHand s + 1) mod numBufs s" by (simp add: h_def advanceClock_def)
  have wfs: "clockHand s < numBufs s" "length (bufDescTable s) = numBufs s"
    using pinned.prems(1) by (simp_all add: wf_mgr_def)
  have n1: "numBufs s1 = numBufs s" "bufDescTable s1 = bufDescTable s" "clockHand s1 = h"
    by (simp_all add: s1_def h_def advanceClock_def)
  have wf1: "wf_mgr s1" unfolding s1_def using pinned.prems(1) by (rule wf_advanceClock)
  have pin1: "list_all pinned_desc (bufDescTable s1)" using pinned.prems(2) by (simp add: n1)
  have k1: "k + 1 < numBufs s1" using pinned.hyps(7) by (simp add: n1)
  have rc1: "\<forall>i<numBufs s1. since_visit (numBufs s1) (clockHand s1) i < k + 1
               \<longrightarrow> \<not> refbit (bufDescTable s1 ! i)"
  proof (intro allI impI)
    fix i assume i: "i < numBufs s1" and sv: "since_visit (numBufs s1) (clockHand s1) i < k + 1"
    from sv have "since_visit (numBufs s) ((clockHand s + 1) mod numBufs s) i < Suc k"
      by (simp add: n1 h)
    then have "i = h \<or> since_visit (numBufs s) (clockHand s) i < k"
      using since_visit_step [of "clockHand s" "numBufs s" i k] wfs i by (simp add: n1 h)
    then show "\<not> refbit (bufDescTable s1 ! i)"
      using pinned.prems(4) i pinned.hyps(5) unfolding n1 by (auto simp: h_def)
  qed
  have rb: "refbits s1 = refbits s" by (simp add: refbits_def n1)
  have e1: "(h + refbits s + (numBufs s - (k + 1))) mod numBufs s =
        (clockHand s + 1 + refbits s + (numBufs s - (k + 1))) mod numBufs s"
    unfolding h by (simp add: mod_add_left_eq add.assoc)
  have e2: "clockHand s + 1 + refbits s + (numBufs s - (k + 1)) =
        clockHand s + refbits s + (numBufs s - k)"
    using pinned.hyps(7) by linarith
  have hand: "(h + refbits s + (numBufs s - (k + 1))) mod numBufs s =
        (clockHand s + refbits s + (numBufs s - k)) mod numBufs s"
    using e1 by (simp only: e2)
  have "snd r = Inl BufferExceeded \<and> bufDescTable (fst r) = map clear_refbit (bufDescTable s1) \<and>
        clockHand (fst r) = (clockHand s1 + refbits s1 + (numBufs s1 - (k + 1))) mod numBufs s1"
    using pinned.IH [folded s1_def, OF wf1 pin1 k1 rc1] .
  then show ?case using hand by (simp add: n1 rb)
next
  case (free s k)
  then show ?case by (auto simp: list_all_length pinned_desc_def)
qed

lemma allocBuf_loop_error:
  "snd (allocBuf_loop s 0) = Inl e \<Longrightarrow> allocBuf s = (fst (allocBuf_loop s 0), Inl e)"
  by (cases "allocBuf_loop s 0") (simp add: allocBuf_def)

lemma allocBuf_exceeded_loop:
  assumes "snd (allocBuf s) = Inl BufferExceeded"
  shows "allocBuf s = (fst (allocBuf_loop s 0), Inl BufferExceeded)"
proof (cases "allocBuf_loop s 0")
  case (Pair s1 r)
  show ?thesis
  proof (cases r)
    case (Inl e)
    with Pair assms show ?thesis by (simp add: allocBuf_def)
  next
    case (Inr u)
    with Pair assms show ?thesis
      by (simp add: allocBuf_def Let_def split: if_splits option.splits)
  qed
qed

lemma names_page_clear_refbit: "names_page f p (clear_refbit d) = names_page f p d"
  by (simp add: names_page_def clear_refbit_def)

lemma list_ex_names_page:
  assumes "map clear_refbit xs = map clear_refbit ys"
  shows "list_ex (names_page f p) xs = list_ex (names_page f p) ys"
proof -
  have "list_ex (names_page f p) zs = list_ex (names_page f p) (map clear_refbit zs)" for zs
    by (induction zs) (simp_all add: names_page_clear_refbit)
  then show ?thesis using assms by metis
qed

lemma clear_refbit_eq_fields:
  assumes "clear_refbit d1 = clear_refbit d"
  shows "valid d1 = valid d" "dirty d1 = dirty d" "file_ptr d1 = file_ptr d"
    "pageNo d1 = pageNo d" "pinCnt d1 = pinCnt d" "frameNo d1 = frameNo d" "Clear d1 = Clear d"
proof -
  have "valid (clear_refbit d1) = valid (clear_refbit d)" "dirty (clear_refbit d1) = dirty (clear_refbit d)"
    "file_ptr (clear_refbit d1) = file_ptr (clear_refbit d)" "pageNo (clear_refbit d1) = pageNo (clear_refbit d)"
    "pinCnt (clear_refbit d1) = pinCnt (clear_refbit d)" "frameNo (clear_refbit d1) = frameNo (clear_refbit d)"
    "Clear (clear_refbit d1) = Clear (clear_refbit d)"
    using assms by simp_all
  then show "valid d1 = valid d" "dirty d1 = dirty d" "file_ptr d1 = file_ptr d"
    "pageNo d1 = pageNo d" "pinCnt d1 = pinCnt d" "frameNo d1 = frameNo d" "Clear d1 = Clear d"
    by (simp_all add: clear_refbit_def Clear_def)
qed

lemma map_clear_refbit_nth:
  assumes "map clear_refbit xs = map clear_refbit ys" and "i < length ys"
  shows "clear_refbit (xs ! i) = clear_refbit (ys ! i)"
proof -
  have "length xs = length ys" using assms(1) by (metis length_map)
  then have "map clear_refbit xs ! i = clear_refbit (xs ! i)" "map clear_refbit ys ! i = clear_refbit (ys ! i)"
    using assms(2) by simp_all
  then show ?thesis using assms(1) by simp
qed

lemma allocBuf_chosen:
  assumes wf: "wf_mgr s" and ab: "allocBuf s = (s', Inr fr)"
  shows "fr < numBufs s \<and> clockHand s' = fr \<and> numBufs s' = numBufs s \<and> bufPool s' = bufPool s \<and>
    map clear_refbit (bufDescTable s') =
      map clear_refbit ((bufDescTable s)[fr := Clear (bufDescTable s ! fr)]) \<and>
    bufDescTable s' ! fr = Clear (bufDescTable s ! fr) \<and>
    (if valid (bufDescTable s ! fr)
     then pinCnt (bufDescTable s ! fr) = 0 \<and>
       hashTable s (file_ptr (bufDescTable s ! fr), pageNo (bufDescTable s ! fr)) \<noteq> None \<and>
       hashTable s' = (hashTable s)((file_ptr (bufDescTable s ! fr), pageNo (bufDescTable s ! fr)) := None) \<and>
       io s' = io s @ (if dirty (bufDescTable s ! fr)
                       then [WritePage (file_ptr (bufDescTable s ! fr)) (bufPool s ! fr)] else [])
     else hashTable s' = hashTable s \<and> io s' = io s)"
proof -
  obtain s1 r where loop: "allocBuf_loop s 0 = (s1, r)" by (cases "allocBuf_loop s 0")
  have r: "r = Inr ()"
  proof (cases r)
    case (Inl e)
    with loop ab show ?thesis by (simp add: allocBuf_def)
  qed simp
  have k: "0 < numBufs s" using wf by (simp add: wf_mgr_def)
  have fr1: "numBufs s1 = numBufs s" "hashTable s1 = hashTable s" "bufPool s1 = bufPool s"
    "io s1 = io s" "map clear_refbit (bufDescTable s1) = map clear_refbit (bufDescTable s)"
    using allocBuf_loop_frame [of s 0] loop by simp_all
  define h where "h = clockHand s1"
  define d1 where "d1 = bufDescTable s1 ! h"
  define d where "d = bufDescTable s ! h"
  have out: "wf_mgr s1" "\<not> valid d1 \<or> \<not> refbit d1 \<and> pinCnt d1 = 0"
    using allocBuf_loop_outcome [OF wf k] loop r by (simp_all add: h_def d1_def)
  have hn: "h < numBufs s" "h < length (bufDescTable s)" "h < length (bufDescTable s1)"
    using out(1) wf fr1(1) by (simp_all add: wf_mgr_def h_def)
  have same: "clear_refbit d1 = clear_refbit d"
    unfolding d1_def d_def using map_clear_refbit_nth [OF fr1(5) hn(2)] .
  note f = clear_refbit_eq_fields [OF same]
  have cl: "map clear_refbit ((bufDescTable s1)[h := Clear d1]) =
            map clear_refbit ((bufDescTable s)[h := Clear d])"
    using fr1(5) f(7) by (simp add: map_update)
  show ?thesis
  proof (cases "valid d")
    case False
    then have "allocBuf s = (upd_desc h Clear s1, Inr h)"
      using loop r f(1) by (simp add: allocBuf_def Let_def h_def d1_def)
    with ab have s': "s' = upd_desc h Clear s1" and fr: "fr = h" by auto
    show ?thesis
      unfolding s' fr using False hn fr1 cl f(7)
      by (simp add: upd_desc_def d_def [symmetric] d1_def [symmetric] h_def [symmetric])
  next
    case True
    then have v1: "valid d1" using f(1) by simp
    then have unp: "pinCnt d = 0" using out(2) f(5) by simp
    have nu: "\<not> (dirty d1 \<and> (file_ptr d1 = NULL \<or> length (bufPool s1) \<le> h))"
      using ab loop r v1 by (auto simp: allocBuf_def Let_def h_def d1_def)
    define s2 where "s2 = (if dirty d1 then s1\<lparr>io := io s1 @ [WritePage (file_ptr d1) (bufPool s1 ! h)]\<rparr> else s1)"
    have ab2: "allocBuf s = (case ht_remove (file_ptr d1) (pageNo d1) s2 of
                None \<Rightarrow> (s2, Inl Undefined) | Some s3 \<Rightarrow> (upd_desc h Clear s3, Inr h))"
      using loop r v1 nu unfolding s2_def d1_def h_def by (simp add: allocBuf_def Let_def)
    have ht2: "hashTable s2 = hashTable s" by (simp add: s2_def fr1)
    obtain x where pres: "hashTable s (file_ptr d1, pageNo d1) = Some x"
      using ab ab2 ht2 by (cases "hashTable s (file_ptr d1, pageNo d1)") (simp_all add: ht_remove_def)
    have "allocBuf s = (upd_desc h Clear (s2\<lparr>hashTable := (hashTable s)((file_ptr d1, pageNo d1) := None)\<rparr>), Inr h)"
      using ab2 pres ht2 by (simp add: ht_remove_def)
    with ab have s': "s' = upd_desc h Clear (s2\<lparr>hashTable := (hashTable s)((file_ptr d1, pageNo d1) := None)\<rparr>)"
      and fr: "fr = h" by auto
    have tab2: "bufDescTable s2 = bufDescTable s1" "numBufs s2 = numBufs s" "bufPool s2 = bufPool s"
      "clockHand s2 = h"
      "io s2 = io s @ (if dirty d then [WritePage (file_ptr d) (bufPool s ! h)] else [])"
      using fr1 f by (simp_all add: s2_def h_def)
    show ?thesis
      unfolding s' fr using True hn cl f unp pres tab2
      by (simp add: upd_desc_def d_def [symmetric] d1_def [symmetric])
  qed
qed

section \<open>The invariant of the page table\<close>

lemma ident_nth:
  assumes "map ident xs = map ident ys" and "i < length ys"
  shows "valid (xs ! i) = valid (ys ! i)" "file_ptr (xs ! i) = file_ptr (ys ! i)"
    "pageNo (xs ! i) = pageNo (ys ! i)" "frameNo (xs ! i) = frameNo (ys ! i)"
proof -
  have "length xs = length ys" using assms(1) by (metis length_map)
  then have "map ident xs ! i = ident (xs ! i)" "map ident ys ! i = ident (ys ! i)"
    using assms(2) by simp_all
  then have "ident (xs ! i) = ident (ys ! i)" using assms(1) by simp
  then show "valid (xs ! i) = valid (ys ! i)" "file_ptr (xs ! i) = file_ptr (ys ! i)"
    "pageNo (xs ! i) = pageNo (ys ! i)" "frameNo (xs ! i) = frameNo (ys ! i)"
    by (simp_all add: ident_def)
qed

lemma ident_clear_refbit:
  assumes "map clear_refbit xs = map clear_refbit ys"
  shows "map ident xs = map ident ys"
proof -
  have "map ident zs = map ident (map clear_refbit zs)" for zs
    by (induction zs) (simp_all add: ident_def clear_refbit_def)
  then show ?thesis using assms by metis
qed

lemma pt_inv_same_ident:
  assumes "pt_inv s" and "numBufs s' = numBufs s" and "hashTable s' = hashTable s"
    and "length (bufPool s') = length (bufPool s)" and "clockHand s' < numBufs s"
    and "map ident (bufDescTable s') = map ident (bufDescTable s)"
  shows "pt_inv s'"
proof -
  have len: "length (bufDescTable s') = length (bufDescTable s)"
    using assms(6) by (metis length_map)
  have n: "length (bufDescTable s) = numBufs s" using assms(1) by (simp add: pt_inv_def wf_mgr_def)
  have same: "valid (bufDescTable s' ! i) = valid (bufDescTable s ! i)"
    "file_ptr (bufDescTable s' ! i) = file_ptr (bufDescTable s ! i)"
    "pageNo (bufDescTable s' ! i) = pageNo (bufDescTable s ! i)"
    "frameNo (bufDescTable s' ! i) = frameNo (bufDescTable s ! i)" if "i < numBufs s" for i
    using ident_nth [OF assms(6)] that n by simp_all
  show ?thesis
    using assms(1-5) len unfolding pt_inv_def wf_mgr_def
    by (simp add: same)
qed

lemma pt_inv_evict:
  assumes inv: "pt_inv s" and i: "i < numBufs s" and d': "\<not> valid d'" "frameNo d' = i"
    and H': "H' = (if valid (bufDescTable s ! i)
               then (hashTable s)((file_ptr (bufDescTable s ! i), pageNo (bufDescTable s ! i)) := None)
               else hashTable s)"
  shows "pt_inv (s\<lparr>bufDescTable := (bufDescTable s)[i := d'], hashTable := H'\<rparr>)"
proof -
  let ?t = "bufDescTable s"
  have wf: "wf_mgr s" and len: "length ?t = numBufs s"
    using inv by (simp_all add: pt_inv_def wf_mgr_def)
  have A: "frameNo (?t ! j) = j" "valid (?t ! j) \<Longrightarrow> file_ptr (?t ! j) \<noteq> NULL"
    "valid (?t ! j) \<Longrightarrow> hashTable s (file_ptr (?t ! j), pageNo (?t ! j)) = Some j"
    if "j < numBufs s" for j
    using inv that by (simp_all add: pt_inv_def)
  have B: "j < numBufs s \<and> valid (?t ! j) \<and> file_ptr (?t ! j) = f \<and> pageNo (?t ! j) = p"
    if "hashTable s (f, p) = Some j" for f p j
    using inv that unfolding pt_inv_def by blast
  have sub: "hashTable s k = Some j" if "H' k = Some j" for k j
    using that unfolding H' by (auto split: if_splits)
  have keep: "H' (file_ptr (?t ! j), pageNo (?t ! j)) = Some j"
    if j: "j < numBufs s" "j \<noteq> i" "valid (?t ! j)" for j
  proof (cases "valid (?t ! i) \<and>
      (file_ptr (?t ! j), pageNo (?t ! j)) = (file_ptr (?t ! i), pageNo (?t ! i))")
    case True
    then have "hashTable s (file_ptr (?t ! j), pageNo (?t ! j)) = Some i"
      using A(3) [OF i] by simp
    then show ?thesis using A(3) [OF j(1,3)] j(2) by simp
  next
    case False
    then show ?thesis using A(3) [OF j(1,3)] unfolding H' by auto
  qed
  have gone: "j \<noteq> i" if "H' (f, p) = Some j" for f p j
  proof
    assume "j = i"
    then have "hashTable s (f, p) = Some i" using sub that by simp
    then have "valid (?t ! i) \<and> file_ptr (?t ! i) = f \<and> pageNo (?t ! i) = p" using B by blast
    then have "H' (f, p) = None" unfolding H' by simp
    then show False using that by simp
  qed
  show ?thesis
    unfolding pt_inv_def
  proof (intro conjI allI impI)
    show "wf_mgr (s\<lparr>bufDescTable := ?t[i := d'], hashTable := H'\<rparr>)"
      using wf by (simp add: wf_mgr_def)
  next
    fix j assume "j < numBufs (s\<lparr>bufDescTable := ?t[i := d'], hashTable := H'\<rparr>)"
    then have j: "j < numBufs s" by simp
    show "frameNo (bufDescTable (s\<lparr>bufDescTable := ?t[i := d'], hashTable := H'\<rparr>) ! j) = j"
      using j i len d' A(1) by (simp add: nth_list_update)
    assume v: "valid (bufDescTable (s\<lparr>bufDescTable := ?t[i := d'], hashTable := H'\<rparr>) ! j)"
    then have ji: "j \<noteq> i" and vj: "valid (?t ! j)"
      using d' i len by (auto simp: nth_list_update split: if_splits)
    show "file_ptr (bufDescTable (s\<lparr>bufDescTable := ?t[i := d'], hashTable := H'\<rparr>) ! j) \<noteq> NULL"
      using ji A(2) [OF j vj] by simp
    show "hashTable (s\<lparr>bufDescTable := ?t[i := d'], hashTable := H'\<rparr>)
       (file_ptr (bufDescTable (s\<lparr>bufDescTable := ?t[i := d'], hashTable := H'\<rparr>) ! j),
        pageNo (bufDescTable (s\<lparr>bufDescTable := ?t[i := d'], hashTable := H'\<rparr>) ! j)) = Some j"
      using ji keep [OF j ji vj] by simp
  next
    fix f p j
    assume "hashTable (s\<lparr>bufDescTable := ?t[i := d'], hashTable := H'\<rparr>) (f, p) = Some j"
    then have h: "H' (f, p) = Some j" by simp
    note b = B [OF sub [OF h]] and ji = gone [OF h]
    show "j < numBufs (s\<lparr>bufDescTable := ?t[i := d'], hashTable := H'\<rparr>)"
      "valid (bufDescTable (s\<lparr>bufDescTable := ?t[i := d'], hashTable := H'\<rparr>) ! j)"
      "file_ptr (bufDescTable (s\<lparr>bufDescTable := ?t[i := d'], hashTable := H'\<rparr>) ! j) = f"
      "pageNo (bufDescTable (s\<lparr>bufDescTable := ?t[i := d'], hashTable := H'\<rparr>) ! j) = p"
      using b ji by simp_all
  qed
qed

lemma pt_inv_install:
  assumes inv: "pt_inv s" and i: "i < numBufs s" and nv: "\<not> valid (bufDescTable s ! i)"
    and abs: "hashTable s (f, p) = None" and f: "f \<noteq> NULL"
  shows "pt_inv (s\<lparr>hashTable := (hashTable s)((f, p) \<mapsto> i),
                    bufDescTable := (bufDescTable s)[i := Set_desc f p (bufDescTable s ! i)]\<rparr>)"
    (is "pt_inv ?s'")
proof -
  let ?t = "bufDescTable s"
  have wf: "wf_mgr s" and len: "length ?t = numBufs s"
    using inv by (simp_all add: pt_inv_def wf_mgr_def)
  have A: "frameNo (?t ! j) = j" "valid (?t ! j) \<Longrightarrow> file_ptr (?t ! j) \<noteq> NULL"
    "valid (?t ! j) \<Longrightarrow> hashTable s (file_ptr (?t ! j), pageNo (?t ! j)) = Some j"
    if "j < numBufs s" for j
    using inv that by (simp_all add: pt_inv_def)
  have B: "j < numBufs s \<and> valid (?t ! j) \<and> file_ptr (?t ! j) = g \<and> pageNo (?t ! j) = q"
    if "hashTable s (g, q) = Some j" for g q j
    using inv that unfolding pt_inv_def by blast
  have tab: "bufDescTable ?s' ! j = (if j = i then Set_desc f p (?t ! i) else ?t ! j)"
    if "j < numBufs s" for j
    using that i len by (simp add: nth_list_update)
  show ?thesis
    unfolding pt_inv_def
  proof (intro conjI allI impI)
    show "wf_mgr ?s'" using wf by (simp add: wf_mgr_def)
  next
    fix j assume "j < numBufs ?s'"
    then have j: "j < numBufs s" by simp
    show "frameNo (bufDescTable ?s' ! j) = j"
      unfolding tab [OF j] using A(1) [OF j] by (auto simp: Set_desc_def)
    assume v: "valid (bufDescTable ?s' ! j)"
    show "file_ptr (bufDescTable ?s' ! j) \<noteq> NULL"
      using v f A(2) [OF j] unfolding tab [OF j] by (simp add: Set_desc_def split: if_splits)
    show "hashTable ?s' (file_ptr (bufDescTable ?s' ! j), pageNo (bufDescTable ?s' ! j)) = Some j"
    proof (cases "j = i")
      case True
      then show ?thesis unfolding tab [OF j] by (simp add: Set_desc_def)
    next
      case False
      then have vj: "valid (?t ! j)" using v unfolding tab [OF j] by simp
      have "(file_ptr (?t ! j), pageNo (?t ! j)) \<noteq> (f, p)"
        using A(3) [OF j vj] abs by auto
      then show ?thesis using False A(3) [OF j vj] unfolding tab [OF j] by auto
    qed
  next
    fix g q j
    assume h: "hashTable ?s' (g, q) = Some j"
    have all: "j < numBufs ?s' \<and> valid (bufDescTable ?s' ! j) \<and>
          file_ptr (bufDescTable ?s' ! j) = g \<and> pageNo (bufDescTable ?s' ! j) = q"
    proof (cases "(g, q) = (f, p)")
      case True
      then have "j = i" using h by simp
      then show ?thesis using True i tab [OF i] by (simp add: Set_desc_def)
    next
      case False
      then have "hashTable s (g, q) = Some j" using h by (auto split: if_splits)
      note b = B [OF this]
      then have "j \<noteq> i" using nv by auto
      then show ?thesis using b tab [of j] by simp
    qed
    show "j < numBufs ?s'" "valid (bufDescTable ?s' ! j)"
      "file_ptr (bufDescTable ?s' ! j) = g" "pageNo (bufDescTable ?s' ! j) = q"
      using all by simp_all
  qed
qed

lemma allocBuf_loop_wf: "wf_mgr s \<longrightarrow> wf_mgr (fst (allocBuf_loop s k))"
proof (rule allocBuf_loop_rule [where P = "\<lambda>s k r. wf_mgr s \<longrightarrow> wf_mgr (fst r)"])
  fix s :: BufMgr and k :: nat and r :: "unit outcome"
  assume "wf_mgr (upd_desc (clockHand (advanceClock s)) (\<lambda>d. d\<lparr>refbit := False\<rparr>) (advanceClock s))
     \<longrightarrow> wf_mgr (fst r)"
  then show "wf_mgr s \<longrightarrow> wf_mgr (fst r)"
    using wf_advanceClock wf_upd_desc by blast
next
  fix s :: BufMgr and k :: nat and r :: "unit outcome"
  assume "wf_mgr (advanceClock s) \<longrightarrow> wf_mgr (fst r)"
  then show "wf_mgr s \<longrightarrow> wf_mgr (fst r)"
    using wf_advanceClock by blast
qed (simp_all add: wf_advanceClock)

lemma pt_inv_allocBuf_loop:
  assumes "pt_inv s"
  shows "pt_inv (fst (allocBuf_loop s k))"
proof -
  have wf: "wf_mgr s" using assms by (simp add: pt_inv_def)
  note fr = allocBuf_loop_frame [of s k]
  have "wf_mgr (fst (allocBuf_loop s k))" using wf allocBuf_loop_wf by blast
  then have hand: "clockHand (fst (allocBuf_loop s k)) < numBufs s"
    using fr by (simp add: wf_mgr_def)
  have id: "map ident (bufDescTable (fst (allocBuf_loop s k))) = map ident (bufDescTable s)"
    using fr by (intro ident_clear_refbit) simp
  show ?thesis
    using fr hand id by (intro pt_inv_same_ident [OF assms]) simp_all
qed

lemma pt_inv_io: "pt_inv (s\<lparr>io := x\<rparr>) = pt_inv s"
  by (simp add: pt_inv_def wf_mgr_def)

lemma pt_inv_bufPool: "length p = length (bufPool s) \<Longrightarrow> pt_inv (s\<lparr>bufPool := p\<rparr>) = pt_inv s"
  by (simp add: pt_inv_def wf_mgr_def)

lemma pt_inv_clear:
  assumes inv: "pt_inv s" and i: "i < numBufs s"
  shows "pt_inv (upd_desc i Clear
     (if valid (bufDescTable s ! i)
      then s\<lparr>hashTable := (hashTable s)((file_ptr (bufDescTable s ! i), pageNo (bufDescTable s ! i)) := None)\<rparr>
      else s))"
proof -
  have fn: "frameNo (bufDescTable s ! i) = i" using inv i by (simp add: pt_inv_def)
  have "pt_inv (s\<lparr>bufDescTable := (bufDescTable s)[i := Clear (bufDescTable s ! i)],
     hashTable := (if valid (bufDescTable s ! i)
        then (hashTable s)((file_ptr (bufDescTable s ! i), pageNo (bufDescTable s ! i)) := None)
        else hashTable s)\<rparr>)"
    using fn by (intro pt_inv_evict [OF inv i]) (simp_all add: Clear_def)
  moreover have "upd_desc i Clear
     (if valid (bufDescTable s ! i)
      then s\<lparr>hashTable := (hashTable s)((file_ptr (bufDescTable s ! i), pageNo (bufDescTable s ! i)) := None)\<rparr>
      else s) = s\<lparr>bufDescTable := (bufDescTable s)[i := Clear (bufDescTable s ! i)],
     hashTable := (if valid (bufDescTable s ! i)
        then (hashTable s)((file_ptr (bufDescTable s ! i), pageNo (bufDescTable s ! i)) := None)
        else hashTable s)\<rparr>"
    by (simp add: upd_desc_def)
  ultimately show ?thesis by simp
qed

lemma pt_inv_allocBuf:
  assumes inv: "pt_inv s"
  shows "pt_inv (fst (allocBuf s))"
proof -
  obtain s1 r where loop: "allocBuf_loop s 0 = (s1, r)" by (cases "allocBuf_loop s 0")
  have inv1: "pt_inv s1" using pt_inv_allocBuf_loop [OF inv, of 0] loop by simp
  define h where "h = clockHand s1"
  define d where "d = bufDescTable s1 ! h"
  have h: "h < numBufs s1" using inv1 by (simp add: pt_inv_def wf_mgr_def h_def)
  show ?thesis
  proof (cases r)
    case (Inl e)
    then show ?thesis using loop inv1 by (simp add: allocBuf_def)
  next
    case (Inr u)
    show ?thesis
    proof (cases "valid d")
      case False
      then have "fst (allocBuf s) = upd_desc h Clear s1"
        using loop Inr by (simp add: allocBuf_def Let_def h_def d_def)
      then show ?thesis using pt_inv_clear [OF inv1 h] False by (simp add: d_def)
    next
      case True
      then have pres: "hashTable s1 (file_ptr d, pageNo d) = Some h"
        using inv1 h by (simp add: pt_inv_def d_def)
      have cl: "pt_inv (upd_desc h Clear (s1\<lparr>hashTable := (hashTable s1)((file_ptr d, pageNo d) := None)\<rparr>))"
        using pt_inv_clear [OF inv1 h] True by (simp add: d_def)
      show ?thesis
      proof (cases "dirty d")
        case False
        then have "fst (allocBuf s) = upd_desc h Clear (s1\<lparr>hashTable := (hashTable s1)((file_ptr d, pageNo d) := None)\<rparr>)"
          using loop Inr True pres unfolding d_def h_def
          by (simp add: allocBuf_def Let_def ht_remove_def)
        then show ?thesis using cl by simp
      next
        case dd: True
        show ?thesis
        proof (cases "file_ptr d = NULL \<or> length (bufPool s1) \<le> h")
          case True
          then have "fst (allocBuf s) = s1"
            using loop Inr \<open>valid d\<close> dd unfolding d_def h_def
            by (simp add: allocBuf_def Let_def)
          then show ?thesis using inv1 by simp
        next
          case False
          then have "fst (allocBuf s) = upd_desc h Clear
            (s1\<lparr>io := io s1 @ [WritePage (file_ptr d) (bufPool s1 ! h)],
                hashTable := (hashTable s1)((file_ptr d, pageNo d) := None)\<rparr>)"
            using loop Inr \<open>valid d\<close> dd pres unfolding d_def h_def
            by (simp add: allocBuf_def Let_def ht_remove_def)
          moreover have "upd_desc h Clear
            (s1\<lparr>io := io s1 @ [WritePage (file_ptr d) (bufPool s1 ! h)],
                hashTable := (hashTable s1)((file_ptr d, pageNo d) := None)\<rparr>) =
            (upd_desc h Clear (s1\<lparr>hashTable := (hashTable s1)((file_ptr d, pageNo d) := None)\<rparr>))
              \<lparr>io := io s1 @ [WritePage (file_ptr d) (bufPool s1 ! h)]\<rparr>"
            by (simp add: upd_desc_def)
          ultimately show ?thesis using cl by (simp add: pt_inv_io)
        qed
      qed
    qed
  qed
qed

lemma pt_inv_cong:
  assumes "numBufs s' = numBufs s" and "bufDescTable s' = bufDescTable s"
    and "hashTable s' = hashTable s" and "length (bufPool s') = length (bufPool s)"
    and "clockHand s' = clockHand s"
  shows "pt_inv s' = pt_inv s"
  using assms by (simp add: pt_inv_def wf_mgr_def)

lemma pt_inv_entry:
  assumes "pt_inv s" and "hashTable s (f, p) = Some i"
  shows "i < numBufs s" "i < length (bufDescTable s)" "valid (bufDescTable s ! i)"
    "file_ptr (bufDescTable s ! i) = f" "pageNo (bufDescTable s ! i) = p"
  using assms unfolding pt_inv_def wf_mgr_def by metis+

lemma pt_inv_upd_desc:
  assumes "pt_inv s" and "ident (g (bufDescTable s ! i)) = ident (bufDescTable s ! i)"
  shows "pt_inv (upd_desc i g s)"
proof -
  have "map ident ((bufDescTable s)[i := g (bufDescTable s ! i)]) = map ident (bufDescTable s)"
    using assms(2) by (simp add: map_update list_update_same_conv list_update_beyond not_less)
       (metis list_update_beyond list_update_id map_update not_less)
  then show ?thesis
    using assms(1) by (intro pt_inv_same_ident [OF assms(1)]) (simp_all add: upd_desc_def pt_inv_def wf_mgr_def)
qed

lemma pt_inv_install_frame:
  assumes inv2: "pt_inv s2" and fr: "fr < numBufs s2" "\<not> valid (bufDescTable s2 ! fr)"
    and f: "f \<noteq> NULL"
  shows "pt_inv (fst (case ht_insert f p fr s2 of
            None \<Rightarrow> (s2, Inl Undefined)
          | Some s3 \<Rightarrow> (upd_desc fr (Set_desc f p) s3, Inr y)))"
proof (cases "hashTable s2 (f, p)")
  case (Some a)
  then show ?thesis using inv2 by (simp add: ht_insert_def)
next
  case None
  from pt_inv_install [OF inv2 fr None f] show ?thesis
    using None by (simp add: ht_insert_def upd_desc_def)
qed

lemma allocBuf_frame_free:
  assumes "pt_inv s" and "allocBuf s = (s1, Inr fr)"
  shows "pt_inv s1" "fr < numBufs s1" "\<not> valid (bufDescTable s1 ! fr)"
proof -
  have wf: "wf_mgr s" using assms(1) by (simp add: pt_inv_def)
  show "pt_inv s1" using pt_inv_allocBuf [OF assms(1)] assms(2) by simp
  show "fr < numBufs s1" "\<not> valid (bufDescTable s1 ! fr)"
    using allocBuf_chosen [OF wf assms(2)] by (simp_all add: Clear_def)
qed

lemma pt_inv_readPage:
  assumes inv: "pt_inv s"
  shows "pt_inv (fst (readPage f p pg s))"
proof (cases "hashTable s (f, p)")
  case (Some t)
  then have "fst (readPage f p pg s) = upd_desc t (\<lambda>d. d\<lparr>refbit := True, pinCnt := pinCnt d + 1\<rparr>) s"
    using pt_inv_entry(2) [OF inv Some] by (simp add: readPage_def ht_lookup_def)
  then show ?thesis using pt_inv_upd_desc [OF inv] by (simp add: ident_def)
next
  case None
  have wf: "wf_mgr s" using inv by (simp add: pt_inv_def)
  obtain s1 r where ab: "allocBuf s = (s1, r)" by (cases "allocBuf s")
  have inv1: "pt_inv s1" using pt_inv_allocBuf [OF inv] ab by simp
  show ?thesis
  proof (cases r)
    case (Inl e)
    then show ?thesis using None ab inv1 by (simp add: readPage_def ht_lookup_def)
  next
    case (Inr fr)
    show ?thesis
    proof (cases "f = NULL \<or> length (bufPool s1) \<le> fr")
      case True
      then show ?thesis using None ab Inr inv1 by (simp add: readPage_def ht_lookup_def)
    next
      case False
      let ?s2 = "s1\<lparr>io := io s1 @ [ReadPage f p], bufPool := (bufPool s1)[fr := pg]\<rparr>"
      note fr = allocBuf_frame_free [OF inv ab [unfolded Inr]]
      have "pt_inv ?s2" using fr(1) pt_inv_cong [of ?s2 s1] by simp
      from pt_inv_install_frame [OF this, of fr f p fr] fr False
      show ?thesis
        using None ab Inr by (simp add: readPage_def ht_lookup_def Let_def)
    qed
  qed
qed

lemma pt_inv_unPinPage:
  assumes inv: "pt_inv s"
  shows "pt_inv (fst (unPinPage f p b s))"
proof (cases "hashTable s (f, p)")
  case None
  then show ?thesis using inv by (simp add: unPinPage_def ht_lookup_def)
next
  case (Some t)
  have 1: "pt_inv (upd_desc t (\<lambda>d. d\<lparr>pinCnt := pinCnt d - 1\<rparr>) s)"
    using pt_inv_upd_desc [OF inv] by (simp add: ident_def)
  have 2: "pt_inv (upd_desc t (\<lambda>d. d\<lparr>dirty := True\<rparr>) (upd_desc t (\<lambda>d. d\<lparr>pinCnt := pinCnt d - 1\<rparr>) s))"
    using pt_inv_upd_desc [OF 1] by (simp add: ident_def)
  show ?thesis
    using Some inv 1 2 by (simp add: unPinPage_def ht_lookup_def Let_def)
qed

lemma pt_inv_allocPage:
  assumes inv: "pt_inv s"
  shows "pt_inv (fst (allocPage f pg s))"
proof (cases "f = NULL")
  case True
  then show ?thesis using inv by (simp add: allocPage_def)
next
  case nn: False
  let ?s0 = "s\<lparr>io := io s @ [AllocatePage f]\<rparr>"
  have inv0: "pt_inv ?s0" using inv by (simp add: pt_inv_io)
  have wf: "wf_mgr ?s0" using inv0 by (simp add: pt_inv_def)
  obtain s1 r where ab: "allocBuf ?s0 = (s1, r)" by (cases "allocBuf ?s0")
  have inv1: "pt_inv s1" using pt_inv_allocBuf [OF inv0] ab by simp
  show ?thesis
  proof (cases r)
    case (Inl e)
    then show ?thesis using nn ab inv1 by (simp add: allocPage_def Let_def)
  next
    case (Inr fr)
    show ?thesis
    proof (cases "length (bufPool s1) \<le> fr")
      case True
      then show ?thesis using nn ab Inr inv1 by (simp add: allocPage_def Let_def)
    next
      case False
      let ?s2 = "s1\<lparr>bufPool := (bufPool s1)[fr := pg]\<rparr>"
      note fr = allocBuf_frame_free [OF inv0 ab [unfolded Inr]]
      have "pt_inv ?s2" using fr(1) pt_inv_cong [of ?s2 s1] by simp
      from pt_inv_install_frame [OF this, of fr f "page_number pg" "(page_number pg, fr)"] fr nn
      show ?thesis
        using False ab Inr by (simp add: allocPage_def Let_def)
    qed
  qed
qed

lemma pt_inv_disposePage:
  assumes inv: "pt_inv s"
  shows "pt_inv (fst (disposePage f p s))"
proof (cases "hashTable s (f, p)")
  case None
  then show ?thesis using inv by (simp add: disposePage_def ht_lookup_def pt_inv_io)
next
  case (Some fr)
  note e = pt_inv_entry [OF inv Some]
  have cl: "pt_inv (upd_desc fr Clear (s\<lparr>hashTable := (hashTable s)((f, p) := None)\<rparr>))"
    using pt_inv_clear [OF inv e(1)] e by simp
  have "ht_remove f p (upd_desc fr Clear s) =
        Some (upd_desc fr Clear (s\<lparr>hashTable := (hashTable s)((f, p) := None)\<rparr>))"
    using Some by (simp add: ht_remove_def upd_desc_def)
  then have "fst (disposePage f p s) =
      (if f = NULL then upd_desc fr Clear (s\<lparr>hashTable := (hashTable s)((f, p) := None)\<rparr>)
       else (upd_desc fr Clear (s\<lparr>hashTable := (hashTable s)((f, p) := None)\<rparr>))
              \<lparr>io := io s @ [DeletePage f p]\<rparr>)"
    using Some e(2) by (simp add: disposePage_def ht_lookup_def upd_desc_def)
  then show ?thesis
    using cl by (cases "f = NULL") (simp_all add: pt_inv_io)
qed

lemma pt_inv_flushFrame:
  assumes inv: "pt_inv s"
  shows "pt_inv (fst (flushFrame f i s))"
proof (cases "i < length (bufDescTable s) \<and> file_ptr (bufDescTable s ! i) = f \<and>
              pinCnt (bufDescTable s ! i) = 0 \<and> valid (bufDescTable s ! i) \<and>
              \<not> (dirty (bufDescTable s ! i) \<and> (f = NULL \<or> length (bufPool s) \<le> i))")
  case False
  then show ?thesis using inv by (auto simp: flushFrame_def Let_def)
next
  case True
  define d where "d = bufDescTable s ! i"
  have i: "i < numBufs s" using True inv by (simp add: pt_inv_def wf_mgr_def)
  have pres: "hashTable s (f, pageNo d) = Some i"
    using inv i True by (auto simp: pt_inv_def d_def)
  have cl: "pt_inv (upd_desc i Clear (s\<lparr>hashTable := (hashTable s)((f, pageNo d) := None)\<rparr>))"
    using pt_inv_clear [OF inv i] True by (simp add: d_def)
  show ?thesis
  proof (cases "dirty d")
    case False
    then have "fst (flushFrame f i s) = upd_desc i Clear (s\<lparr>hashTable := (hashTable s)((f, pageNo d) := None)\<rparr>)"
      using True pres unfolding d_def by (simp add: flushFrame_def Let_def ht_remove_def)
    then show ?thesis using cl by simp
  next
    case dd: True
    then have "fst (flushFrame f i s) = upd_desc i Clear
       (s\<lparr>io := io s @ [WritePage f (bufPool s ! i)], hashTable := (hashTable s)((f, pageNo d) := None)\<rparr>)"
      using True pres unfolding d_def by (simp add: flushFrame_def Let_def ht_remove_def)
    moreover have "pt_inv (upd_desc i Clear
       (s\<lparr>io := io s @ [WritePage f (bufPool s ! i)], hashTable := (hashTable s)((f, pageNo d) := None)\<rparr>)) =
       pt_inv (upd_desc i Clear (s\<lparr>hashTable := (hashTable s)((f, pageNo d) := None)\<rparr>))"
      by (rule pt_inv_cong) (simp_all add: upd_desc_def)
    ultimately show ?thesis using cl by simp
  qed
qed

lemma pt_inv_flushFile_loop:
  "pt_inv s \<Longrightarrow> pt_inv (fst (flushFile_loop f i n s))"
proof (induction f i n s rule: flushFile_loop.induct)
  case (1 f i n s)
  show ?case
  proof (cases "n \<le> i")
    case True
    then show ?thesis using "1.prems" by (subst flushFile_loop.simps) simp
  next
    case False
    obtain s1 r where ff: "flushFrame f i s = (s1, r)" by (cases "flushFrame f i s")
    have inv1: "pt_inv s1" using pt_inv_flushFrame [OF "1.prems", of f i] ff by simp
    show ?thesis
    proof (cases r)
      case (Inl e)
      then show ?thesis using False ff inv1 by (subst flushFile_loop.simps) simp
    next
      case (Inr u)
      have "pt_inv (fst (flushFile_loop f (i + 1) n s1))"
        using "1.IH" [OF False ff [symmetric] Inr inv1] .
      then show ?thesis using False ff Inr by (subst flushFile_loop.simps) simp
    qed
  qed
qed

lemma pt_inv_state_after: "pt_inv s \<Longrightarrow> pt_inv (state_after c s)"
  by (cases c)
    (simp_all add: pt_inv_readPage pt_inv_unPinPage pt_inv_allocPage pt_inv_disposePage
       pt_inv_flushFile_loop flushFile_def)

lemma pt_inv_run: "pt_inv s \<Longrightarrow> pt_inv (run cs s)"
  by (induction cs arbitrary: s) (simp_all add: pt_inv_state_after)

lemma pt_inv_new: "pt_inv (BufMgr_new (Suc n))"
  by (simp add: pt_inv_def wf_mgr_def BufMgr_new_def fresh_desc_def del: upt_Suc)

lemma pt_inv_valid:
  assumes "pt_inv s" and "i < numBufs s"
  shows "frameNo (bufDescTable s ! i) = i"
    "valid (bufDescTable s ! i) \<Longrightarrow> file_ptr (bufDescTable s ! i) \<noteq> NULL"
    "valid (bufDescTable s ! i) \<Longrightarrow>
       hashTable s (file_ptr (bufDescTable s ! i), pageNo (bufDescTable s ! i)) = Some i"
  using assms by (simp_all add: pt_inv_def)

lemma allocBuf_loop_free_frame:
  "wf_mgr s \<longrightarrow>
   (\<exists>i<numBufs s. \<not> valid (bufDescTable s ! i) \<and>
       k + steps_to (numBufs s) (clockHand s) i \<le> numBufs s) \<longrightarrow>
   snd (allocBuf_loop s k) = Inr ()"
proof (rule allocBuf_loop_rule [where P = "\<lambda>s k r. wf_mgr s \<longrightarrow>
   (\<exists>i<numBufs s. \<not> valid (bufDescTable s ! i) \<and>
       k + steps_to (numBufs s) (clockHand s) i \<le> numBufs s) \<longrightarrow> snd r = Inr ()"], goal_cases)
  case (1 s k)
  then show ?case by (auto simp: wf_mgr_def steps_to_def split: if_splits)
next
  case (2 s k)
  then show ?case using advanceClock_hand [of s] by (simp add: wf_mgr_def)
next
  case (3 s k)
  then show ?case by simp
next
  case (4 s k r)
  define h where "h = clockHand (advanceClock s)"
  define s2 where "s2 = upd_desc h (\<lambda>d. d\<lparr>refbit := False\<rparr>) (advanceClock s)"
  note hyps = 4 [folded h_def, folded s2_def]
  have h: "h = (clockHand s + 1) mod numBufs s" by (simp add: h_def advanceClock_def)
  have n2: "numBufs s2 = numBufs s" "clockHand s2 = h"
    by (simp_all add: s2_def h_def upd_desc_def advanceClock_def)
  show ?case
  proof (intro impI)
    assume wf: "wf_mgr s"
      and ex: "\<exists>i<numBufs s. \<not> valid (bufDescTable s ! i) \<and>
                 k + steps_to (numBufs s) (clockHand s) i \<le> numBufs s"
    then obtain i where i: "i < numBufs s" "\<not> valid (bufDescTable s ! i)"
      "k + steps_to (numBufs s) (clockHand s) i \<le> numBufs s" by blast
    have c: "clockHand s < numBufs s" using wf by (simp add: wf_mgr_def)
    have ne: "i \<noteq> h" using i(2) hyps(4) by auto
    have st: "Suc (steps_to (numBufs s) h i) = steps_to (numBufs s) (clockHand s) i"
      unfolding h using steps_to_step [OF c i(1)] ne h by simp
    have wf2: "wf_mgr s2" using wf by (simp add: s2_def wf_advanceClock wf_upd_desc)
    have "bufDescTable s2 ! i = bufDescTable s ! i"
      using ne by (simp add: s2_def upd_desc_def advanceClock_def)
    then have "\<exists>i<numBufs s2. \<not> valid (bufDescTable s2 ! i) \<and>
                 k + steps_to (numBufs s2) (clockHand s2) i \<le> numBufs s2"
      using i st unfolding n2 by (intro exI [of _ i]) simp
    then show "snd r = Inr ()" using hyps(6) wf2 by blast
  qed
next
  case (5 s k)
  define h where "h = clockHand (advanceClock s)"
  note hyps = 5 [folded h_def]
  have h: "h = (clockHand s + 1) mod numBufs s" by (simp add: h_def advanceClock_def)
  show ?case
  proof (intro impI)
    assume wf: "wf_mgr s"
      and ex: "\<exists>i<numBufs s. \<not> valid (bufDescTable s ! i) \<and>
                 k + steps_to (numBufs s) (clockHand s) i \<le> numBufs s"
    then obtain i where i: "i < numBufs s" "\<not> valid (bufDescTable s ! i)"
      "k + steps_to (numBufs s) (clockHand s) i \<le> numBufs s" by blast
    have c: "clockHand s < numBufs s" using wf by (simp add: wf_mgr_def)
    have ne: "i \<noteq> h" using i(2) hyps(4) by auto
    have st: "Suc (steps_to (numBufs s) h i) = steps_to (numBufs s) (clockHand s) i"
      unfolding h using steps_to_step [OF c i(1)] ne h by simp
    have "h < numBufs s" using c by (simp add: h)
    then have "0 < steps_to (numBufs s) h i" using steps_to_pos [of h "numBufs s" i] i(1) by simp
    then have False using st i(3) hyps(7) by linarith
    then show "snd (advanceClock s, Inl BufferExceeded) = Inr ()" ..
  qed
next
  case (6 s k r)
  define h where "h = clockHand (advanceClock s)"
  define s1 where "s1 = advanceClock s"
  note hyps = 6 [folded h_def, folded s1_def]
  have h: "h = (clockHand s + 1) mod numBufs s" by (simp add: h_def advanceClock_def)
  have n1: "numBufs s1 = numBufs s" "clockHand s1 = h" "bufDescTable s1 = bufDescTable s"
    by (simp_all add: s1_def h_def advanceClock_def)
  show ?case
  proof (intro impI)
    assume wf: "wf_mgr s"
      and ex: "\<exists>i<numBufs s. \<not> valid (bufDescTable s ! i) \<and>
                 k + steps_to (numBufs s) (clockHand s) i \<le> numBufs s"
    then obtain i where i: "i < numBufs s" "\<not> valid (bufDescTable s ! i)"
      "k + steps_to (numBufs s) (clockHand s) i \<le> numBufs s" by blast
    have c: "clockHand s < numBufs s" using wf by (simp add: wf_mgr_def)
    have ne: "i \<noteq> h" using i(2) hyps(4) by auto
    have st: "Suc (steps_to (numBufs s) h i) = steps_to (numBufs s) (clockHand s) i"
      unfolding h using steps_to_step [OF c i(1)] ne h by simp
    have wf1: "wf_mgr s1" using wf by (simp add: s1_def wf_advanceClock)
    have "\<exists>i<numBufs s1. \<not> valid (bufDescTable s1 ! i) \<and>
                 k + 1 + steps_to (numBufs s1) h i \<le> numBufs s1"
      using i st unfolding n1 by (intro exI [of _ i]) simp
    then show "snd r = Inr ()" using hyps(8) wf1 by blast
  qed
next
  case (7 s k)
  then show ?case by simp
qed

lemma allocBuf_succeeds:
  assumes inv: "pt_inv s" and i: "i < numBufs s" "\<not> valid (bufDescTable s ! i)"
  shows "\<exists>fr. snd (allocBuf s) = Inr fr"
proof -
  have wf: "wf_mgr s" using inv by (simp add: pt_inv_def)
  then have c: "clockHand s < numBufs s" by (simp add: wf_mgr_def)
  have "\<exists>i<numBufs s. \<not> valid (bufDescTable s ! i) \<and>
       0 + steps_to (numBufs s) (clockHand s) i \<le> numBufs s"
    using i steps_to_pos [OF c i(1)] by (intro exI [of _ i]) simp
  then have r: "snd (allocBuf_loop s 0) = Inr ()"
    using allocBuf_loop_free_frame [of s 0] wf by blast
  obtain s1 where loop: "allocBuf_loop s 0 = (s1, Inr ())"
    using r by (cases "allocBuf_loop s 0") simp
  have inv1: "pt_inv s1" using pt_inv_allocBuf_loop [OF inv, of 0] loop by simp
  define h where "h = clockHand s1"
  define d where "d = bufDescTable s1 ! h"
  have h: "h < numBufs s1" "h < length (bufPool s1)"
    using inv1 by (simp_all add: pt_inv_def wf_mgr_def h_def)
  show ?thesis
  proof (cases "valid d")
    case False
    then show ?thesis using loop unfolding d_def h_def by (simp add: allocBuf_def Let_def)
  next
    case True
    have "file_ptr d \<noteq> NULL" "hashTable s1 (file_ptr d, pageNo d) = Some h"
      using pt_inv_valid(2,3) [OF inv1 h(1)] True by (simp_all add: d_def)
    then show ?thesis
      using loop True h(2) unfolding d_def h_def
      by (simp add: allocBuf_def Let_def ht_remove_def)
  qed
qed

lemma allocBuf_failure_table:
  assumes "snd (allocBuf s) = Inl e"
  shows "map clear_refbit (bufDescTable (fst (allocBuf s))) = map clear_refbit (bufDescTable s)"
proof -
  obtain s1 r where loop: "allocBuf_loop s 0 = (s1, r)" by (cases "allocBuf_loop s 0")
  have fr: "map clear_refbit (bufDescTable s1) = map clear_refbit (bufDescTable s)"
    using allocBuf_loop_frame [of s 0] loop by simp
  show ?thesis
  proof (cases r)
    case (Inl e')
    then show ?thesis using loop fr by (simp add: allocBuf_def)
  next
    case (Inr u)
    have "bufDescTable (fst (allocBuf s)) = bufDescTable s1"
      using assms loop Inr
      by (auto simp: allocBuf_def Let_def ht_remove_def split: if_splits option.splits)
    then show ?thesis using fr by simp
  qed
qed

lemma allocBuf_keeps_dirty:
  assumes wf: "wf_mgr s" and i: "i < numBufs s" and d: "dirty (bufDescTable s ! i)"
    and other: "snd (allocBuf s) \<noteq> Inr i"
  shows "dirty (bufDescTable (fst (allocBuf s)) ! i)"
proof -
  have len: "i < length (bufDescTable s)" using wf i by (simp add: wf_mgr_def)
  obtain s1 r where ab: "allocBuf s = (s1, r)" by (cases "allocBuf s")
  show ?thesis
  proof (cases r)
    case (Inl e)
    then have "map clear_refbit (bufDescTable s1) = map clear_refbit (bufDescTable s)"
      using allocBuf_failure_table [of s e] ab by simp
    from map_clear_refbit_nth [OF this len] have "dirty (bufDescTable s1 ! i) = dirty (bufDescTable s ! i)"
      by (rule clear_refbit_eq_fields)
    then show ?thesis using d ab by simp
  next
    case (Inr fr)
    then have ne: "fr \<noteq> i" using other ab by auto
    have "map clear_refbit (bufDescTable s1) =
          map clear_refbit ((bufDescTable s)[fr := Clear (bufDescTable s ! fr)])"
      using allocBuf_chosen [OF wf ab [unfolded Inr]] by simp
    from map_clear_refbit_nth [OF this, of i] len
    have "clear_refbit (bufDescTable s1 ! i) = clear_refbit (bufDescTable s ! i)"
      using ne by simp
    then have "dirty (bufDescTable s1 ! i) = dirty (bufDescTable s ! i)"
      by (rule clear_refbit_eq_fields)
    then show ?thesis using d ab by simp
  qed
qed

lemma unPinPage_keeps_dirty:
  assumes "i < length (bufDescTable s)" and "dirty (bufDescTable s ! i)"
  shows "dirty (bufDescTable (fst (unPinPage f p b s)) ! i)"
  using assms
  by (auto simp: unPinPage_def ht_lookup_def upd_desc_def Let_def nth_list_update
        split: option.splits)

lemma readPage_keeps_dirty:
  assumes wf: "wf_mgr s" and i: "i < numBufs s" and d: "dirty (bufDescTable s ! i)"
    and other: "\<not> clears_frame (ReadPageC f p pg) s i"
  shows "dirty (bufDescTable (fst (readPage f p pg s)) ! i)"
proof (cases "hashTable s (f, p)")
  case (Some t)
  then show ?thesis
    using d i wf
    by (auto simp: readPage_def ht_lookup_def upd_desc_def nth_list_update wf_mgr_def)
next
  case None
  then have ne: "snd (allocBuf s) \<noteq> Inr i" using other by simp
  obtain s1 r where ab: "allocBuf s = (s1, r)" by (cases "allocBuf s")
  have d1: "dirty (bufDescTable s1 ! i)"
    using allocBuf_keeps_dirty [OF wf i d ne] ab by simp
  show ?thesis
  proof (cases r)
    case (Inl e)
    then show ?thesis using None ab d1 by (simp add: readPage_def ht_lookup_def)
  next
    case (Inr fr)
    then have "fr \<noteq> i" using ne ab by auto
    then show ?thesis
      using None ab Inr d1
      by (auto simp: readPage_def ht_lookup_def ht_insert_def upd_desc_def Let_def
            split: option.splits)
  qed
qed

lemma numBufs_allocBuf: "numBufs (fst (allocBuf s)) = numBufs s"
proof -
  obtain s1 r where loop: "allocBuf_loop s 0 = (s1, r)" by (cases "allocBuf_loop s 0")
  have "numBufs s1 = numBufs s" using allocBuf_loop_frame [of s 0] loop by simp
  then show ?thesis
    using loop
    by (cases r) (auto simp: allocBuf_def Let_def ht_remove_def upd_desc_def split: option.splits)
qed

lemma numBufs_readPage: "numBufs (fst (readPage f p pg s)) = numBufs s"
proof (cases "allocBuf s")
  case (Pair s1 r)
  then have "numBufs s1 = numBufs s" using numBufs_allocBuf [of s] by simp
  then show ?thesis
    using Pair
    by (cases r) (auto simp: readPage_def ht_lookup_def ht_insert_def upd_desc_def Let_def
          split: option.splits)
qed

lemma numBufs_unPinPage: "numBufs (fst (unPinPage f p b s)) = numBufs s"
  by (auto simp: unPinPage_def ht_lookup_def upd_desc_def Let_def split: option.splits)

lemma run_keeps_dirty:
  "pt_inv s \<Longrightarrow> i < numBufs s \<Longrightarrow> dirty (bufDescTable s ! i) \<Longrightarrow>
   list_all read_or_unpin cs \<Longrightarrow> \<not> cleared_in cs s i \<Longrightarrow>
   dirty (bufDescTable (run cs s) ! i)"
proof (induction cs arbitrary: s)
  case Nil
  then show ?case by simp
next
  case (Cons c cs)
  have wf: "wf_mgr s" using Cons.prems(1) by (simp add: pt_inv_def)
  then have len: "i < length (bufDescTable s)" using Cons.prems(2) by (simp add: wf_mgr_def)
  have inv': "pt_inv (state_after c s)" using Cons.prems(1) by (rule pt_inv_state_after)
  have nc: "\<not> clears_frame c s i" and rest: "\<not> cleared_in cs (state_after c s) i"
    using Cons.prems(5) by simp_all
  have ru: "read_or_unpin c" and rus: "list_all read_or_unpin cs"
    using Cons.prems(4) by simp_all
  have step: "numBufs (state_after c s) = numBufs s \<and> dirty (bufDescTable (state_after c s) ! i)"
  proof (cases c)
    case (ReadPageC g q pg)
    then show ?thesis
      using readPage_keeps_dirty [OF wf Cons.prems(2,3), of g q pg] nc
      by (simp add: numBufs_readPage)
  next
    case (UnPinPageC g q b)
    then show ?thesis
      using unPinPage_keeps_dirty [OF len Cons.prems(3), of g q b]
      by (simp add: numBufs_unPinPage)
  qed (use ru in simp_all)
  then have "dirty (bufDescTable (run cs (state_after c s)) ! i)"
    using Cons.IH [OF inv' _ _ rus rest] Cons.prems(2) by simp
  then show ?case by simp
qed

section \<open>The scan of flushFile\<close>

lemma outcome_unit_id:
  "(case r of (s1, Inl e) \<Rightarrow> (s1, Inl e) | (s1, Inr (u :: unit)) \<Rightarrow> (s1, Inr ())) = r"
  by (cases r) (auto split: sum.splits)

lemma flushFile_loop_done: "n \<le> i \<Longrightarrow> flushFile_loop f i n s = (s, Inr ())"
  by (subst flushFile_loop.simps) simp

lemma flushFile_loop_step:
  "i < n \<Longrightarrow> flushFile_loop f i n s =
     (case flushFrame f i s of
        (s1, Inl e) \<Rightarrow> (s1, Inl e)
      | (s1, Inr u) \<Rightarrow> flushFile_loop f (i + 1) n s1)"
  by (subst flushFile_loop.simps) simp

lemma flushFile_loop_snoc:
  "j \<le> k \<Longrightarrow> flushFile_loop f j (Suc k) s =
     (case flushFile_loop f j k s of
        (s1, Inl e) \<Rightarrow> (s1, Inl e)
      | (s1, Inr u) \<Rightarrow> flushFrame f k s1)"
proof (induction "k - j" arbitrary: j s)
  case 0
  then have jk: "j = k" by simp
  have "flushFile_loop f k (Suc k) s =
     (case flushFrame f k s of (s1, Inl e) \<Rightarrow> (s1, Inl e) | (s1, Inr u) \<Rightarrow> (s1, Inr ()))"
    by (simp add: flushFile_loop_step flushFile_loop_done split: prod.splits sum.splits)
  then show ?case
    unfolding jk by (simp add: flushFile_loop_done outcome_unit_id)
next
  case (Suc d)
  then have jk: "j < k" "j < Suc k" and d: "d = k - (j + 1)" and le: "j + 1 \<le> k" by simp_all
  obtain s1 r where ff: "flushFrame f j s = (s1, r)" by (cases "flushFrame f j s")
  show ?case
  proof (cases r)
    case (Inl e)
    then show ?thesis using ff jk by (simp add: flushFile_loop_step)
  next
    case (Inr u)
    then show ?thesis
      using ff jk Suc.hyps(1) [OF d le, of s1] by (simp add: flushFile_loop_step)
  qed
qed

lemma flushFile_loop_failure:
  "flushFile_loop f 0 n s = (s', Inl e) \<Longrightarrow>
   \<exists>i<n. \<exists>s0. flushFile_loop f 0 i s = (s0, Inr ()) \<and> flushFrame f i s0 = (s', Inl e)"
proof (induction n arbitrary: s' e)
  case 0
  then show ?case by (simp add: flushFile_loop_done)
next
  case (Suc k)
  obtain s1 r where lp: "flushFile_loop f 0 k s = (s1, r)" by (cases "flushFile_loop f 0 k s")
  show ?case
  proof (cases r)
    case (Inl e')
    then have "flushFile_loop f 0 k s = (s', Inl e)"
      using Suc.prems lp by (simp add: flushFile_loop_snoc)
    from Suc.IH [OF this] show ?thesis using less_Suc_eq by blast
  next
    case (Inr u)
    then have "flushFrame f k s1 = (s', Inl e)"
      using Suc.prems lp by (simp add: flushFile_loop_snoc)
    then show ?thesis using lp Inr by (intro exI [of _ k]) auto
  qed
qed

lemma flushFrame_cases:
  assumes "i < length (bufDescTable s)"
  shows "(file_ptr (bufDescTable s ! i) \<noteq> f \<longrightarrow> flushFrame f i s = (s, Inr ())) \<and>
    (file_ptr (bufDescTable s ! i) = f \<and> pinCnt (bufDescTable s ! i) \<noteq> 0 \<longrightarrow>
       flushFrame f i s = (s, Inl (PagePinned (pageNo (bufDescTable s ! i)) i))) \<and>
    (file_ptr (bufDescTable s ! i) = f \<and> pinCnt (bufDescTable s ! i) = 0 \<and>
       \<not> valid (bufDescTable s ! i) \<longrightarrow>
       flushFrame f i s =
         (s, Inl (BadBuffer i (dirty (bufDescTable s ! i)) False (refbit (bufDescTable s ! i))))) \<and>
    (file_ptr (bufDescTable s ! i) = f \<and> pinCnt (bufDescTable s ! i) = 0 \<and>
       valid (bufDescTable s ! i) \<and> hashTable s (f, pageNo (bufDescTable s ! i)) \<noteq> None \<and>
       (dirty (bufDescTable s ! i) \<longrightarrow> f \<noteq> NULL \<and> i < length (bufPool s)) \<longrightarrow>
       flushFrame f i s =
         (s\<lparr>io := io s @ (if dirty (bufDescTable s ! i) then [WritePage f (bufPool s ! i)] else []),
            hashTable := (hashTable s)((f, pageNo (bufDescTable s ! i)) := None),
            bufDescTable := (bufDescTable s)[i := Clear (bufDescTable s ! i)]\<rparr>, Inr ()))"
  using assms by (auto simp: flushFrame_def Let_def ht_remove_def upd_desc_def)

lemma flushFrame_error_state:
  "flushFrame f i s = (s', Inl e) \<Longrightarrow> e \<noteq> Undefined \<Longrightarrow> s' = s"
  by (auto simp: flushFrame_def Let_def ht_remove_def split: if_splits option.splits)

lemma flushed_table_0: "flushed_table f 0 t = t"
  by (simp add: flushed_table_def map_nth)

lemma flushed_table_length: "length (flushed_table f k t) = length t"
  by (simp add: flushed_table_def)

lemma flushed_table_nth: "k < length t \<Longrightarrow> flushed_table f k t ! k = t ! k"
  by (simp add: flushed_table_def)

lemma flushed_table_Suc:
  "flushed_table f (Suc k) t =
     (if file_ptr (t ! k) = f then (flushed_table f k t)[k := Clear (t ! k)]
      else flushed_table f k t)"
proof (rule nth_equalityI)
  show "length (flushed_table f (Suc k) t) =
        length (if file_ptr (t ! k) = f then (flushed_table f k t)[k := Clear (t ! k)]
                else flushed_table f k t)"
    by (simp add: flushed_table_def)
next
  fix i assume "i < length (flushed_table f (Suc k) t)"
  then have i: "i < length t" by (simp add: flushed_table_def)
  show "flushed_table f (Suc k) t ! i =
        (if file_ptr (t ! k) = f then (flushed_table f k t)[k := Clear (t ! k)]
         else flushed_table f k t) ! i"
  proof (cases "i = k")
    case True
    then show ?thesis using i by (simp add: flushed_table_def)
  next
    case False
    then have "(i < Suc k) = (i < k)" by auto
    then show ?thesis using i False by (simp add: flushed_table_def)
  qed
qed

lemma flushed_writes_0: "flushed_writes f 0 s = []"
  by (simp add: flushed_writes_def)

lemma flushed_writes_Suc:
  "flushed_writes f (Suc k) s = flushed_writes f k s @
     (if file_ptr (bufDescTable s ! k) = f \<and> dirty (bufDescTable s ! k)
      then [WritePage f (bufPool s ! k)] else [])"
  by (simp add: flushed_writes_def)

lemma flushed_keys_0: "flushed_keys f 0 t = {}"
  by (simp add: flushed_keys_def)

lemma flushed_keys_Suc:
  "flushed_keys f (Suc k) t =
     (if file_ptr (t ! k) = f then insert (f, pageNo (t ! k)) (flushed_keys f k t)
      else flushed_keys f k t)"
proof -
  have "{j. j < Suc k \<and> file_ptr (t ! j) = f} =
        (if file_ptr (t ! k) = f then insert k {j. j < k \<and> file_ptr (t ! j) = f}
         else {j. j < k \<and> file_ptr (t ! j) = f})"
    by (auto simp: less_Suc_eq)
  then show ?thesis by (simp add: flushed_keys_def)
qed

lemma restrict_remove: "(m |` (- A))(x := None) = m |` (- insert x A)"
  by (rule ext) (simp add: restrict_map_def)

lemma flushFrame_success:
  assumes "flushFrame f i s = (s', Inr ())"
  shows "i < length (bufDescTable s) \<and>
    (if file_ptr (bufDescTable s ! i) = f
     then pinCnt (bufDescTable s ! i) = 0 \<and> valid (bufDescTable s ! i) \<and>
       s' = s\<lparr>io := io s @ (if dirty (bufDescTable s ! i) then [WritePage f (bufPool s ! i)] else []),
              hashTable := (hashTable s)((f, pageNo (bufDescTable s ! i)) := None),
              bufDescTable := (bufDescTable s)[i := Clear (bufDescTable s ! i)]\<rparr>
     else s' = s)"
proof -
  define d where "d = bufDescTable s ! i"
  have i: "i < length (bufDescTable s)"
    using assms by (cases "i < length (bufDescTable s)") (simp_all add: flushFrame_def)
  show ?thesis
  proof (cases "file_ptr d = f")
    case False
    then show ?thesis using assms i by (simp add: flushFrame_def d_def)
  next
    case True
    have p: "pinCnt d = 0"
      using assms i True by (cases "pinCnt d = 0") (simp_all add: flushFrame_def d_def)
    have v: "valid d"
      using assms i True p by (cases "valid d") (simp_all add: flushFrame_def d_def Let_def)
    have u: "\<not> (dirty d \<and> (f = NULL \<or> length (bufPool s) \<le> i))"
      using assms i True p v
      by (cases "dirty d \<and> (f = NULL \<or> length (bufPool s) \<le> i)")
         (simp_all add: flushFrame_def d_def)
    define s1 where "s1 = (if dirty d then s\<lparr>io := io s @ [WritePage f (bufPool s ! i)]\<rparr> else s)"
    have ff: "flushFrame f i s = (case ht_remove f (pageNo d) s1 of
                None \<Rightarrow> (s1, Inl Undefined) | Some s2 \<Rightarrow> (upd_desc i Clear s2, Inr ()))"
      using i True p v u unfolding s1_def d_def by (simp add: flushFrame_def Let_def)
    have h1: "hashTable s1 = hashTable s" by (simp add: s1_def)
    obtain x where pres: "hashTable s (f, pageNo d) = Some x"
      using assms ff h1 by (cases "hashTable s (f, pageNo d)") (simp_all add: ht_remove_def)
    have "s' = upd_desc i Clear (s1\<lparr>hashTable := (hashTable s)((f, pageNo d) := None)\<rparr>)"
      using assms ff h1 pres by (simp add: ht_remove_def)
    then have "s' = s\<lparr>io := io s @ (if dirty d then [WritePage f (bufPool s ! i)] else []),
              hashTable := (hashTable s)((f, pageNo d) := None),
              bufDescTable := (bufDescTable s)[i := Clear d]\<rparr>"
      by (simp add: s1_def upd_desc_def d_def)
    then show ?thesis using i True p v by (simp add: d_def)
  qed
qed

lemma flushFile_loop_prefix:
  "flushFile_loop f 0 k s = (s', Inr ()) \<Longrightarrow>
   k \<le> length (bufDescTable s) \<and> numBufs s' = numBufs s \<and> clockHand s' = clockHand s \<and>
   bufPool s' = bufPool s \<and>
   bufDescTable s' = flushed_table f k (bufDescTable s) \<and>
   io s' = io s @ flushed_writes f k s \<and>
   hashTable s' = hashTable s |` (- flushed_keys f k (bufDescTable s))"
proof (induction k arbitrary: s')
  case 0
  then show ?case
    by (simp add: flushFile_loop_done flushed_table_0 flushed_writes_0 flushed_keys_0)
next
  case (Suc k)
  obtain s1 r where lp: "flushFile_loop f 0 k s = (s1, r)" by (cases "flushFile_loop f 0 k s")
  have r: "r = Inr ()" using Suc.prems lp by (cases r) (simp_all add: flushFile_loop_snoc)
  have ff: "flushFrame f k s1 = (s', Inr ())"
    using Suc.prems lp r by (simp add: flushFile_loop_snoc)
  note ih = Suc.IH [OF lp [unfolded r]]
  note su = flushFrame_success [OF ff]
  let ?t = "bufDescTable s"
  have k: "k < length ?t" using su ih by (simp add: flushed_table_length)
  have d1: "bufDescTable s1 ! k = ?t ! k" using ih k by (simp add: flushed_table_nth)
  show ?case
  proof (cases "file_ptr (?t ! k) = f")
    case False
    then have "s' = s1" using su d1 by simp
    then show ?thesis
      using ih k False by (simp add: flushed_table_Suc flushed_writes_Suc flushed_keys_Suc)
  next
    case True
    have s': "s' = s1\<lparr>io := io s1 @ (if dirty (?t ! k) then [WritePage f (bufPool s1 ! k)] else []),
            hashTable := (hashTable s1)((f, pageNo (?t ! k)) := None),
            bufDescTable := (bufDescTable s1)[k := Clear (?t ! k)]\<rparr>"
      using su True d1 by simp
    have hash: "(hashTable s1)((f, pageNo (?t ! k)) := None) =
                hashTable s |` (- flushed_keys f (Suc k) ?t)"
      using ih True by (auto simp: flushed_keys_Suc restrict_map_def fun_eq_iff)
    have tab: "(bufDescTable s1)[k := Clear (?t ! k)] = flushed_table f (Suc k) ?t"
      using ih k True by (simp add: flushed_table_Suc)
    have wr: "io s1 @ (if dirty (?t ! k) then [WritePage f (bufPool s1 ! k)] else []) =
              io s @ flushed_writes f (Suc k) s"
      using ih True by (simp add: flushed_writes_Suc)
    show ?thesis
      unfolding s' using ih k hash tab wr by simp
  qed
qed

section \<open>unPinPage\<close>

text \<open>
  C8. \<^verbatim>\<open>unPinPage(file, pageNo, dirty)\<close>: when \<open>(file, pageNo)\<close> is not in the page
  table the call returns and the whole state is as before; when it is there (at a frame
  of the table) with \<open>pinCnt = 0\<close> the call throws \<^verbatim>\<open>PageNotPinnedException\<close> and
  changes nothing; otherwise it returns, \<open>pinCnt\<close> of that frame is one less than it
  was, its dirty flag is set when \<open>dirty\<close> is true and kept otherwise, and nothing
  else changes.
\<close>

theorem unPinPage_cases:
  "(hashTable s (f, p) = None \<longrightarrow> unPinPage f p b s = (s, Inr ())) \<and>
   (\<forall>t. hashTable s (f, p) = Some t \<and> t < length (bufDescTable s) \<longrightarrow>
      (pinCnt (bufDescTable s ! t) = 0 \<longrightarrow> unPinPage f p b s = (s, Inl (PageNotPinned p t))) \<and>
      (pinCnt (bufDescTable s ! t) \<noteq> 0 \<longrightarrow>
         unPinPage f p b s =
           (s\<lparr>bufDescTable := (bufDescTable s)[t := (bufDescTable s ! t)
                \<lparr>pinCnt := pinCnt (bufDescTable s ! t) - 1,
                 dirty := dirty (bufDescTable s ! t) \<or> b\<rparr>]\<rparr>, Inr ()) \<and>
         pinCnt (bufDescTable (fst (unPinPage f p b s)) ! t) + 1 = pinCnt (bufDescTable s ! t)))"
  by (cases b) (auto simp: unPinPage_def ht_lookup_def upd_desc_def Let_def)

theorem unPinPage_cases_witness:
  "unPinPage 1 4 True pinned3 = (pinned3, Inr ()) \<and>
   pinCnt (bufDescTable pinned3 ! 1) = 1 \<and>
   pinCnt (bufDescTable (fst (unPinPage 1 2 True pinned3)) ! 1) + 1 = 1 \<and>
   snd (unPinPage 1 2 False (fst (unPinPage 1 2 True pinned3))) = Inl (PageNotPinned 2 1)"
proof -
  let ?s = "fst (unPinPage 1 2 True pinned3)"
  have miss: "hashTable pinned3 (1, 4) = None"
    by (simp add: pinned3_def model_defs)
  have hit: "hashTable pinned3 (1, 2) = Some 1 \<and> 1 < length (bufDescTable pinned3)"
    "pinCnt (bufDescTable pinned3 ! 1) \<noteq> 0" "pinCnt (bufDescTable pinned3 ! 1) = 1"
    by (simp_all add: pinned3_def model_defs)
  have a: "unPinPage 1 4 True pinned3 = (pinned3, Inr ())"
    using unPinPage_cases [of pinned3 1 4 True] miss by simp
  have b: "pinCnt (bufDescTable ?s ! 1) + 1 = pinCnt (bufDescTable pinned3 ! 1)"
    using unPinPage_cases [of pinned3 1 2 True] hit by blast
  have s: "hashTable ?s (1, 2) = Some 1 \<and> 1 < length (bufDescTable ?s)"
    "pinCnt (bufDescTable ?s ! 1) = 0"
    by (simp_all add: pinned3_def model_defs)
  have c: "unPinPage 1 2 False ?s = (?s, Inl (PageNotPinned 2 1))"
    using unPinPage_cases [of ?s 1 2 False] s by blast
  show ?thesis using a b hit(3) c by simp
qed

section \<open>A pool full of pinned pages\<close>

text \<open>
  The count of pinned frames is not a count of distinct frames. In \<open>referenced3\<close>
  page 3 is unpinned, but the sweep counts frames 0 and 1, clears the reference bit of
  frame 2, and counts frame 0 again: \<^verbatim>\<open>readPage\<close> of a new page throws
  \<^verbatim>\<open>BufferExceededException\<close>. The same call made again is given frame 2.
\<close>

lemma allocBuf_counts_frame_twice:
  "pinCnt (bufDescTable referenced3 ! 2) = 0 \<and> valid (bufDescTable referenced3 ! 2) \<and>
   refbit (bufDescTable referenced3 ! 2) \<and>
   snd (readPage 1 5 (page_of 5) referenced3) = Inl BufferExceeded \<and>
   snd (readPage 1 5 (page_of 5) (fst (readPage 1 5 (page_of 5) referenced3))) = Inr 2"
  by (simp add: referenced3_def pinned3_def model_defs)

text \<open>
  C4. \<^verbatim>\<open>allocBuf\<close> always terminates, and when every frame is pinned it throws
  \<^verbatim>\<open>BufferExceededException\<close>. The loop is \<open>allocBuf_loop\<close>, a total function: its
  termination is proved above, each pass either clearing a set reference bit or
  counting a pinned frame. For a well-formed manager the theorem says: the loop ends in
  \<^verbatim>\<open>BufferExceededException\<close> or on a chosen frame (never at the guard of the model);
  it ends in the exception when every frame holds a pinned page; and from any count
  \<open>k < numBufs\<close> the body does what the claim says: an invalid frame is chosen; a set
  reference bit is cleared and the loop goes on with the same count; a frame with a
  clear bit and no pin is chosen; a frame with a clear bit and a pin raises the count,
  and the exception is thrown when the count reaches \<open>numBufs\<close>.
\<close>

theorem allocBuf_terminates:
  assumes "wf_mgr s"
  shows "(snd (allocBuf_loop s 0) = Inl BufferExceeded \<or> snd (allocBuf_loop s 0) = Inr ()) \<and>
         (list_all pinned_desc (bufDescTable s) \<longrightarrow> snd (allocBuf s) = Inl BufferExceeded) \<and>
         (\<forall>k<numBufs s.
            allocBuf_loop s k =
              (let s1 = advanceClock s; d = bufDescTable s ! clockHand s1 in
               if \<not> valid d then (s1, Inr ())
               else if refbit d then allocBuf_loop (upd_desc (clockHand s1) clear_refbit s1) k
               else if pinCnt d = 0 then (s1, Inr ())
               else if k + 1 = numBufs s then (s1, Inl BufferExceeded)
               else allocBuf_loop s1 (k + 1)))"
proof (intro conjI allI impI)
  have k: "0 < numBufs s" using assms by (simp add: wf_mgr_def)
  show "snd (allocBuf_loop s 0) = Inl BufferExceeded \<or> snd (allocBuf_loop s 0) = Inr ()"
    using allocBuf_loop_outcome [OF assms k] by blast
  show "snd (allocBuf s) = Inl BufferExceeded" if "list_all pinned_desc (bufDescTable s)"
    using allocBuf_loop_all_pinned [OF assms that k] allocBuf_loop_error [of s BufferExceeded]
    by simp
next
  fix k assume k: "k < numBufs s"
  have "clockHand (advanceClock s) < length (bufDescTable s)"
    using assms advanceClock_hand [of s] by (simp add: wf_mgr_def)
  moreover have "bufDescTable (advanceClock s) = bufDescTable s"
    "numBufs (advanceClock s) = numBufs s"
    by (simp_all add: advanceClock_def)
  moreover have "clear_refbit = (\<lambda>d. d\<lparr>refbit := False\<rparr>)"
    by (rule ext) (simp add: clear_refbit_def)
  ultimately show "allocBuf_loop s k =
              (let s1 = advanceClock s; d = bufDescTable s ! clockHand s1 in
               if \<not> valid d then (s1, Inr ())
               else if refbit d then allocBuf_loop (upd_desc (clockHand s1) clear_refbit s1) k
               else if pinCnt d = 0 then (s1, Inr ())
               else if k + 1 = numBufs s then (s1, Inl BufferExceeded)
               else allocBuf_loop s1 (k + 1))"
    using k by (subst allocBuf_loop.simps) (simp add: Let_def)
qed

theorem allocBuf_terminates_witness:
  "wf_mgr pinned3 \<and> list_all pinned_desc (bufDescTable pinned3) \<and>
   snd (allocBuf pinned3) = Inl BufferExceeded \<and>
   wf_mgr (BufMgr_new 3) \<and> snd (allocBuf_loop (BufMgr_new 3) 0) = Inr ()"
proof -
  have h: "wf_mgr pinned3" "list_all pinned_desc (bufDescTable pinned3)" "wf_mgr (BufMgr_new 3)"
    by (simp_all add: pinned3_def wf_mgr_def pinned_desc_def model_defs)
  have "snd (allocBuf_loop (BufMgr_new 3) 0) \<noteq> Inl BufferExceeded"
    by (simp add: model_defs)
  then show ?thesis
    using allocBuf_terminates [OF h(1)] allocBuf_terminates [OF h(3)] h by simp
qed

text \<open>
  C3, as amended. When every frame holds a pinned page, \<^verbatim>\<open>readPage\<close> of a page that
  is not resident throws \<^verbatim>\<open>BufferExceededException\<close>; the page table, the pool,
  the trace of file calls and every descriptor's \<open>file\<close>, \<open>pageNo\<close>, \<open>frameNo\<close>,
  \<open>pinCnt\<close>, \<open>dirty\<close> and \<open>valid\<close> are as before. The sweep has cleared every
  reference bit, and the hand stands \<open>refbits s\<close> frames further (modulo \<open>numBufs\<close>),
  one for each bit that was set.
\<close>

theorem readPage_all_pinned:
  assumes "wf_mgr s" and "list_all pinned_desc (bufDescTable s)" and "hashTable s (f, p) = None"
  shows "snd (readPage f p fromFile s) = Inl BufferExceeded \<and>
         hashTable (fst (readPage f p fromFile s)) = hashTable s \<and>
         bufPool (fst (readPage f p fromFile s)) = bufPool s \<and>
         io (fst (readPage f p fromFile s)) = io s \<and>
         numBufs (fst (readPage f p fromFile s)) = numBufs s \<and>
         bufDescTable (fst (readPage f p fromFile s)) = map clear_refbit (bufDescTable s) \<and>
         clockHand (fst (readPage f p fromFile s)) = (clockHand s + refbits s) mod numBufs s"
proof -
  have k: "0 < numBufs s" using assms(1) by (simp add: wf_mgr_def)
  have loop: "snd (allocBuf_loop s 0) = Inl BufferExceeded"
    "bufDescTable (fst (allocBuf_loop s 0)) = map clear_refbit (bufDescTable s)"
    "clockHand (fst (allocBuf_loop s 0)) = (clockHand s + refbits s + (numBufs s - 0)) mod numBufs s"
    using allocBuf_loop_all_pinned [OF assms(1,2) k] by simp_all
  have "readPage f p fromFile s = (fst (allocBuf_loop s 0), Inl BufferExceeded)"
    using assms(3) allocBuf_loop_error [OF loop(1)] by (simp add: readPage_def ht_lookup_def)
  then show ?thesis
    using loop(2,3) allocBuf_loop_frame [of s 0] by simp
qed

theorem readPage_all_pinned_witness:
  "wf_mgr pinned3_hit \<and> list_all pinned_desc (bufDescTable pinned3_hit) \<and>
   hashTable pinned3_hit (1, 5) = None \<and>
   snd (readPage 1 5 (page_of 5) pinned3_hit) = Inl BufferExceeded \<and>
   io (fst (readPage 1 5 (page_of 5) pinned3_hit)) = io pinned3_hit \<and>
   bufDescTable (fst (readPage 1 5 (page_of 5) pinned3_hit)) = map clear_refbit (bufDescTable pinned3_hit) \<and>
   clockHand (fst (readPage 1 5 (page_of 5) pinned3_hit)) = (2 + 1) mod 3"
proof -
  have h: "wf_mgr pinned3_hit" "list_all pinned_desc (bufDescTable pinned3_hit)"
    "hashTable pinned3_hit (1, 5) = None"
    by (simp_all add: pinned3_hit_def pinned3_def wf_mgr_def pinned_desc_def model_defs)
  have v: "clockHand pinned3_hit = 2" "refbits pinned3_hit = 1" "numBufs pinned3_hit = 3"
    by (simp_all add: pinned3_hit_def pinned3_def refbits_def model_defs)
  show ?thesis
    using readPage_all_pinned [OF h, of "page_of 5"] h v by simp
qed

text \<open>
  C3 as stated (no state change persists, each reference bit and the hand included)
  fails on \<open>pinned3_hit\<close>: all three frames hold pinned pages and page 5 is not
  resident; the read throws \<^verbatim>\<open>BufferExceededException\<close>, the reference bit of frame
  0 was set before and is clear after, and the hand has moved from 2 to 0.
\<close>

theorem readPage_all_pinned_changes_state:
  "list_all pinned_desc (bufDescTable pinned3_hit) \<and>
   length (bufDescTable pinned3_hit) = numBufs pinned3_hit \<and>
   hashTable pinned3_hit (1, 5) = None \<and>
   snd (readPage 1 5 (page_of 5) pinned3_hit) = Inl BufferExceeded \<and>
   refbit (bufDescTable pinned3_hit ! 0) \<and>
   \<not> refbit (bufDescTable (fst (readPage 1 5 (page_of 5) pinned3_hit)) ! 0) \<and>
   clockHand pinned3_hit = 2 \<and>
   clockHand (fst (readPage 1 5 (page_of 5) pinned3_hit)) = 0"
  by (simp add: pinned3_hit_def pinned3_def pinned_desc_def model_defs)

section \<open>allocPage\<close>

text \<open>
  C10. \<^verbatim>\<open>allocPage\<close> calls \<^verbatim>\<open>file->allocatePage()\<close> before \<^verbatim>\<open>allocBuf\<close>. When
  \<^verbatim>\<open>allocBuf\<close> then throws \<^verbatim>\<open>BufferExceededException\<close>, the exception leaves
  \<^verbatim>\<open>allocPage\<close> (no page number is returned), the allocation is the last call made
  on the file (nothing deletes the page), and the page table, the pool and the
  descriptors (but for reference bits) are as before: when nothing referred to the new
  page before the call, nothing refers to it after.
\<close>

theorem allocPage_exceeded_leaks_page:
  assumes "f \<noteq> NULL"
    and "snd (allocBuf (s\<lparr>io := io s @ [AllocatePage f]\<rparr>)) = Inl BufferExceeded"
    and "\<not> resident f (page_number newPage) s"
  shows "snd (allocPage f newPage s) = Inl BufferExceeded \<and>
         io (fst (allocPage f newPage s)) = io s @ [AllocatePage f] \<and>
         hashTable (fst (allocPage f newPage s)) = hashTable s \<and>
         bufPool (fst (allocPage f newPage s)) = bufPool s \<and>
         map clear_refbit (bufDescTable (fst (allocPage f newPage s))) =
           map clear_refbit (bufDescTable s) \<and>
         \<not> resident f (page_number newPage) (fst (allocPage f newPage s))"
proof -
  let ?s0 = "s\<lparr>io := io s @ [AllocatePage f]\<rparr>"
  have ab: "allocBuf ?s0 = (fst (allocBuf_loop ?s0 0), Inl BufferExceeded)"
    using assms(2) by (rule allocBuf_exceeded_loop)
  then have ap: "allocPage f newPage s = (fst (allocBuf_loop ?s0 0), Inl BufferExceeded)"
    using assms(1) by (simp add: allocPage_def Let_def)
  have fr: "hashTable (fst (allocBuf_loop ?s0 0)) = hashTable s"
    "bufPool (fst (allocBuf_loop ?s0 0)) = bufPool s"
    "io (fst (allocBuf_loop ?s0 0)) = io s @ [AllocatePage f]"
    "map clear_refbit (bufDescTable (fst (allocBuf_loop ?s0 0))) = map clear_refbit (bufDescTable s)"
    using allocBuf_loop_frame [of ?s0 0] by simp_all
  have "resident f (page_number newPage) (fst (allocBuf_loop ?s0 0)) =
        resident f (page_number newPage) s"
    using fr(1) list_ex_names_page [OF fr(4)] by (simp add: resident_def)
  then show ?thesis
    using ap fr assms(3) by simp
qed

theorem allocPage_exceeded_leaks_page_witness:
  "(1::nat) \<noteq> NULL \<and>
   snd (allocBuf (pinned3\<lparr>io := io pinned3 @ [AllocatePage 1]\<rparr>)) = Inl BufferExceeded \<and>
   \<not> resident 1 (page_number (page_of 4)) pinned3 \<and>
   snd (allocPage 1 (page_of 4) pinned3) = Inl BufferExceeded \<and>
   io (fst (allocPage 1 (page_of 4) pinned3)) = io pinned3 @ [AllocatePage 1] \<and>
   \<not> resident 1 (page_number (page_of 4)) (fst (allocPage 1 (page_of 4) pinned3))"
proof -
  have h: "(1::nat) \<noteq> NULL"
    "snd (allocBuf (pinned3\<lparr>io := io pinned3 @ [AllocatePage 1]\<rparr>)) = Inl BufferExceeded"
    "\<not> resident 1 (page_number (page_of 4)) pinned3"
    by (simp_all add: pinned3_def resident_def names_page_def model_defs)
  show ?thesis
    using allocPage_exceeded_leaks_page [OF h] h by simp
qed

section \<open>Eviction\<close>

text \<open>
  C5. When \<^verbatim>\<open>allocBuf\<close> returns a frame that held a page (its descriptor was valid),
  the frame returned is the one under the hand and it was not pinned; the page was
  written to its file exactly when its dirty flag was set (one \<^verbatim>\<open>writePage\<close> of the
  pool slot, to the descriptor's file), and no other call was made on a file; the
  page's entry was in the page table and has been removed, the other entries are as
  before; and the descriptor is the cleared one.
\<close>

theorem allocBuf_evicts_victim:
  assumes "wf_mgr s" and "allocBuf s = (s', Inr fr)" and "valid (bufDescTable s ! fr)"
  shows "clockHand s' = fr \<and> fr < numBufs s \<and> pinCnt (bufDescTable s ! fr) = 0 \<and>
    io s' = io s @ (if dirty (bufDescTable s ! fr)
                    then [WritePage (file_ptr (bufDescTable s ! fr)) (bufPool s ! fr)] else []) \<and>
    hashTable s (file_ptr (bufDescTable s ! fr), pageNo (bufDescTable s ! fr)) \<noteq> None \<and>
    hashTable s' = (hashTable s)((file_ptr (bufDescTable s ! fr), pageNo (bufDescTable s ! fr)) := None) \<and>
    bufDescTable s' ! fr = Clear (bufDescTable s ! fr) \<and>
    \<not> valid (bufDescTable s' ! fr)"
  using allocBuf_chosen [OF assms(1,2)] assms(3) by (simp add: Clear_def)

theorem allocBuf_evicts_victim_witness:
  "wf_mgr dirty2 \<and> snd (allocBuf dirty2) = Inr 1 \<and>
   valid (bufDescTable dirty2 ! 1) \<and> dirty (bufDescTable dirty2 ! 1) \<and>
   clockHand (fst (allocBuf dirty2)) = 1 \<and>
   io (fst (allocBuf dirty2)) = io dirty2 @ [WritePage 1 (bufPool dirty2 ! 1)] \<and>
   hashTable dirty2 (1, 2) = Some 1 \<and>
   hashTable (fst (allocBuf dirty2)) = (hashTable dirty2)((1, 2) := None) \<and>
   \<not> valid (bufDescTable (fst (allocBuf dirty2)) ! 1)"
proof -
  have h: "wf_mgr dirty2" "snd (allocBuf dirty2) = Inr 1" "valid (bufDescTable dirty2 ! 1)"
    by (simp_all add: dirty2_def pinned3_def wf_mgr_def model_defs)
  have v: "dirty (bufDescTable dirty2 ! 1)" "file_ptr (bufDescTable dirty2 ! 1) = 1"
    "pageNo (bufDescTable dirty2 ! 1) = 2" "hashTable dirty2 (1, 2) = Some 1"
    by (simp_all add: dirty2_def pinned3_def model_defs)
  have e: "allocBuf dirty2 = (fst (allocBuf dirty2), Inr 1)"
    using h(2) by (simp add: prod_eq_iff)
  note c = allocBuf_evicts_victim [OF h(1) e h(3), unfolded v if_True]
  from c have c1: "clockHand (fst (allocBuf dirty2)) = 1" by (rule conjunct1)
  from c v(1) have c2: "io (fst (allocBuf dirty2)) = io dirty2 @ [WritePage 1 (bufPool dirty2 ! 1)]"
    by simp
  from c have c3: "hashTable (fst (allocBuf dirty2)) = (hashTable dirty2)((1, 2) := None)"
    by blast
  from c have c4: "\<not> valid (bufDescTable (fst (allocBuf dirty2)) ! 1)"
    by blast
  show ?thesis
    using h v(1,4) c1 c2 c3 c4 by (intro conjI)
qed

section \<open>readPage\<close>

text \<open>
  C2. \<^verbatim>\<open>readPage(file, pageNo)\<close>. Hit: the page table maps \<open>(file, pageNo)\<close> to a
  frame \<open>t\<close> of the table; the call returns \<open>t\<close>, the reference bit of \<open>t\<close> is set, its
  \<open>pinCnt\<close> is one more than before, and nothing else changes: no call is made on a
  file. Miss: the page table has no entry, and \<^verbatim>\<open>allocBuf\<close> returns frame \<open>fr\<close> and
  leaves state \<open>s1\<close>; the call returns \<open>fr\<close>, one \<^verbatim>\<open>file->readPage(pageNo)\<close> is made and
  its page is in pool slot \<open>fr\<close>, the page table maps \<open>(file, pageNo)\<close> to \<open>fr\<close>, and the
  descriptor of \<open>fr\<close> is \<open>Set\<close>: \<open>pinCnt = 1\<close>, \<open>refbit = true\<close>, \<open>dirty = false\<close>,
  \<open>valid = true\<close>, with the identity of the page.
\<close>

theorem readPage_hit_miss:
  "(\<forall>t. hashTable s (f, p) = Some t \<and> t < length (bufDescTable s) \<longrightarrow>
      readPage f p fromFile s =
        (s\<lparr>bufDescTable := (bufDescTable s)[t := (bufDescTable s ! t)
            \<lparr>refbit := True, pinCnt := pinCnt (bufDescTable s ! t) + 1\<rparr>]\<rparr>, Inr t) \<and>
      refbit (bufDescTable (fst (readPage f p fromFile s)) ! t) \<and>
      pinCnt (bufDescTable (fst (readPage f p fromFile s)) ! t) = pinCnt (bufDescTable s ! t) + 1 \<and>
      io (fst (readPage f p fromFile s)) = io s) \<and>
   (\<forall>s1 fr. hashTable s (f, p) = None \<and> wf_mgr s \<and> f \<noteq> NULL \<and> allocBuf s = (s1, Inr fr) \<longrightarrow>
      readPage f p fromFile s =
        (s1\<lparr>io := io s1 @ [ReadPage f p],
            bufPool := (bufPool s1)[fr := fromFile],
            hashTable := (hashTable s1)((f, p) \<mapsto> fr),
            bufDescTable := (bufDescTable s1)[fr := Set_desc f p (bufDescTable s1 ! fr)]\<rparr>, Inr fr) \<and>
      bufPool (fst (readPage f p fromFile s)) ! fr = fromFile \<and>
      hashTable (fst (readPage f p fromFile s)) (f, p) = Some fr \<and>
      pinCnt (bufDescTable (fst (readPage f p fromFile s)) ! fr) = 1 \<and>
      refbit (bufDescTable (fst (readPage f p fromFile s)) ! fr) \<and>
      \<not> dirty (bufDescTable (fst (readPage f p fromFile s)) ! fr) \<and>
      valid (bufDescTable (fst (readPage f p fromFile s)) ! fr) \<and>
      file_ptr (bufDescTable (fst (readPage f p fromFile s)) ! fr) = f \<and>
      pageNo (bufDescTable (fst (readPage f p fromFile s)) ! fr) = p)"
proof (intro conjI allI impI)
  fix t assume hit: "hashTable s (f, p) = Some t \<and> t < length (bufDescTable s)"
  then show eq: "readPage f p fromFile s =
        (s\<lparr>bufDescTable := (bufDescTable s)[t := (bufDescTable s ! t)
            \<lparr>refbit := True, pinCnt := pinCnt (bufDescTable s ! t) + 1\<rparr>]\<rparr>, Inr t)"
    by (simp add: readPage_def ht_lookup_def upd_desc_def)
  show "refbit (bufDescTable (fst (readPage f p fromFile s)) ! t)"
    "pinCnt (bufDescTable (fst (readPage f p fromFile s)) ! t) = pinCnt (bufDescTable s ! t) + 1"
    "io (fst (readPage f p fromFile s)) = io s"
    unfolding eq using hit by simp_all
next
  fix s1 fr
  assume miss: "hashTable s (f, p) = None \<and> wf_mgr s \<and> f \<noteq> NULL \<and> allocBuf s = (s1, Inr fr)"
  note ch = allocBuf_chosen [of s s1 fr]
  have fr: "fr < numBufs s" "numBufs s1 = numBufs s" "bufPool s1 = bufPool s"
    using ch miss by simp_all
  have len: "length (bufDescTable s1) = length (bufDescTable s)"
    using ch miss by (metis length_list_update length_map)
  have lt: "fr < length (bufPool s1)" "fr < length (bufDescTable s1)"
    using fr len miss by (simp_all add: wf_mgr_def)
  have "hashTable s1 (f, p) = None"
    using ch miss by (cases "valid (bufDescTable s ! fr)") simp_all
  then show eq: "readPage f p fromFile s =
        (s1\<lparr>io := io s1 @ [ReadPage f p],
            bufPool := (bufPool s1)[fr := fromFile],
            hashTable := (hashTable s1)((f, p) \<mapsto> fr),
            bufDescTable := (bufDescTable s1)[fr := Set_desc f p (bufDescTable s1 ! fr)]\<rparr>, Inr fr)"
    using miss lt by (simp add: readPage_def ht_lookup_def ht_insert_def upd_desc_def Let_def)
  show "bufPool (fst (readPage f p fromFile s)) ! fr = fromFile"
    "hashTable (fst (readPage f p fromFile s)) (f, p) = Some fr"
    "pinCnt (bufDescTable (fst (readPage f p fromFile s)) ! fr) = 1"
    "refbit (bufDescTable (fst (readPage f p fromFile s)) ! fr)"
    "\<not> dirty (bufDescTable (fst (readPage f p fromFile s)) ! fr)"
    "valid (bufDescTable (fst (readPage f p fromFile s)) ! fr)"
    "file_ptr (bufDescTable (fst (readPage f p fromFile s)) ! fr) = f"
    "pageNo (bufDescTable (fst (readPage f p fromFile s)) ! fr) = p"
    unfolding eq using lt by (simp_all add: Set_desc_def)
qed

theorem readPage_hit_miss_witness:
  "hashTable pinned3 (1, 2) = Some 1 \<and> snd (readPage 1 2 (page_of 2) pinned3) = Inr 1 \<and>
   pinCnt (bufDescTable pinned3 ! 1) = 1 \<and>
   pinCnt (bufDescTable (fst (readPage 1 2 (page_of 2) pinned3)) ! 1) =
     pinCnt (bufDescTable pinned3 ! 1) + 1 \<and>
   io (fst (readPage 1 2 (page_of 2) pinned3)) = io pinned3 \<and>
   hashTable (BufMgr_new 3) (1, 7) = None \<and> snd (allocBuf (BufMgr_new 3)) = Inr 0 \<and>
   snd (readPage 1 7 (page_of 7) (BufMgr_new 3)) = Inr 0 \<and>
   io (fst (readPage 1 7 (page_of 7) (BufMgr_new 3))) = [ReadPage 1 7] \<and>
   bufPool (fst (readPage 1 7 (page_of 7) (BufMgr_new 3))) ! 0 = page_of 7 \<and>
   hashTable (fst (readPage 1 7 (page_of 7) (BufMgr_new 3))) (1, 7) = Some 0 \<and>
   pinCnt (bufDescTable (fst (readPage 1 7 (page_of 7) (BufMgr_new 3))) ! 0) = 1"
proof -
  have hit: "hashTable pinned3 (1, 2) = Some 1 \<and> 1 < length (bufDescTable pinned3)"
    and pc: "pinCnt (bufDescTable pinned3 ! 1) = 1"
    by (simp_all add: pinned3_def model_defs)
  have miss: "hashTable (BufMgr_new 3) (1, 7) = None \<and> wf_mgr (BufMgr_new 3) \<and> (1::nat) \<noteq> NULL \<and>
      allocBuf (BufMgr_new 3) = (fst (allocBuf (BufMgr_new 3)), Inr 0)"
    and io0: "io (fst (allocBuf (BufMgr_new 3))) = []"
    and ab: "snd (allocBuf (BufMgr_new 3)) = Inr 0"
    by (simp_all add: wf_mgr_def prod_eq_iff model_defs)
  have a: "readPage 1 2 (page_of 2) pinned3 =
        (pinned3\<lparr>bufDescTable := (bufDescTable pinned3)[1 := (bufDescTable pinned3 ! 1)
            \<lparr>refbit := True, pinCnt := pinCnt (bufDescTable pinned3 ! 1) + 1\<rparr>]\<rparr>, Inr 1) \<and>
      refbit (bufDescTable (fst (readPage 1 2 (page_of 2) pinned3)) ! 1) \<and>
      pinCnt (bufDescTable (fst (readPage 1 2 (page_of 2) pinned3)) ! 1) = pinCnt (bufDescTable pinned3 ! 1) + 1 \<and>
      io (fst (readPage 1 2 (page_of 2) pinned3)) = io pinned3"
    using readPage_hit_miss [of pinned3 1 2 "page_of 2"] hit by blast
  have b: "readPage 1 7 (page_of 7) (BufMgr_new 3) =
        ((fst (allocBuf (BufMgr_new 3)))\<lparr>io := io (fst (allocBuf (BufMgr_new 3))) @ [ReadPage 1 7],
            bufPool := (bufPool (fst (allocBuf (BufMgr_new 3))))[0 := page_of 7],
            hashTable := (hashTable (fst (allocBuf (BufMgr_new 3))))((1, 7) \<mapsto> 0),
            bufDescTable := (bufDescTable (fst (allocBuf (BufMgr_new 3))))
               [0 := Set_desc 1 7 (bufDescTable (fst (allocBuf (BufMgr_new 3))) ! 0)]\<rparr>, Inr 0) \<and>
      bufPool (fst (readPage 1 7 (page_of 7) (BufMgr_new 3))) ! 0 = page_of 7 \<and>
      hashTable (fst (readPage 1 7 (page_of 7) (BufMgr_new 3))) (1, 7) = Some 0 \<and>
      pinCnt (bufDescTable (fst (readPage 1 7 (page_of 7) (BufMgr_new 3))) ! 0) = 1"
    using readPage_hit_miss [of "BufMgr_new 3" 1 7 "page_of 7"] miss by blast
  have a1: "snd (readPage 1 2 (page_of 2) pinned3) = Inr 1"
    using a by simp
  have b1: "snd (readPage 1 7 (page_of 7) (BufMgr_new 3)) = Inr 0"
    "io (fst (readPage 1 7 (page_of 7) (BufMgr_new 3))) = [ReadPage 1 7]"
    using b io0 by simp_all
  show ?thesis
    using hit pc a a1 miss ab b b1 by blast
qed

section \<open>The page table and the frames agree\<close>

text \<open>
  C1. The invariant \<open>pt_inv\<close> holds of a new manager (of at least one frame) and of
  the state every public operation (\<^verbatim>\<open>readPage\<close>, \<^verbatim>\<open>unPinPage\<close>, \<^verbatim>\<open>allocPage\<close>,
  \<^verbatim>\<open>disposePage\<close>, \<^verbatim>\<open>flushFile\<close>) leaves behind, whether it returns or throws, when it
  held before: so it holds after every sequence of operations. Where it holds, the
  page table maps the \<open>(file, pageNo)\<close> of every valid frame to its \<open>frameNo\<close>; every
  entry of the page table targets a valid frame whose \<open>(file, pageNo)\<close> is the entry's
  key; and no two distinct valid frames hold the same \<open>(file, pageNo)\<close>.
\<close>

theorem page_table_invariant:
  "pt_inv (BufMgr_new (Suc n)) \<and>
   pt_inv (run cs (BufMgr_new (Suc n))) \<and>
   (pt_inv s \<longrightarrow> pt_inv (state_after c s)) \<and>
   (pt_inv s \<longrightarrow>
      (\<forall>i<numBufs s. valid (bufDescTable s ! i) \<longrightarrow>
         hashTable s (file_ptr (bufDescTable s ! i), pageNo (bufDescTable s ! i)) =
           Some (frameNo (bufDescTable s ! i))) \<and>
      (\<forall>f p i. hashTable s (f, p) = Some i \<longrightarrow>
         i < numBufs s \<and> valid (bufDescTable s ! i) \<and> frameNo (bufDescTable s ! i) = i \<and>
         file_ptr (bufDescTable s ! i) = f \<and> pageNo (bufDescTable s ! i) = p) \<and>
      (\<forall>i<numBufs s. \<forall>j<numBufs s.
         valid (bufDescTable s ! i) \<and> valid (bufDescTable s ! j) \<and>
         file_ptr (bufDescTable s ! i) = file_ptr (bufDescTable s ! j) \<and>
         pageNo (bufDescTable s ! i) = pageNo (bufDescTable s ! j) \<longrightarrow> i = j))"
proof (intro conjI impI)
  show "pt_inv (BufMgr_new (Suc n))" by (rule pt_inv_new)
  then show "pt_inv (run cs (BufMgr_new (Suc n)))" by (rule pt_inv_run)
  show "pt_inv (state_after c s)" if "pt_inv s" using that by (rule pt_inv_state_after)
next
  assume inv: "pt_inv s"
  show "\<forall>i<numBufs s. valid (bufDescTable s ! i) \<longrightarrow>
         hashTable s (file_ptr (bufDescTable s ! i), pageNo (bufDescTable s ! i)) =
           Some (frameNo (bufDescTable s ! i))"
    using pt_inv_valid [OF inv] by simp
  show "\<forall>f p i. hashTable s (f, p) = Some i \<longrightarrow>
         i < numBufs s \<and> valid (bufDescTable s ! i) \<and> frameNo (bufDescTable s ! i) = i \<and>
         file_ptr (bufDescTable s ! i) = f \<and> pageNo (bufDescTable s ! i) = p"
  proof (intro allI impI)
    fix f p i assume h: "hashTable s (f, p) = Some i"
    note e = pt_inv_entry [OF inv h]
    show "i < numBufs s \<and> valid (bufDescTable s ! i) \<and> frameNo (bufDescTable s ! i) = i \<and>
         file_ptr (bufDescTable s ! i) = f \<and> pageNo (bufDescTable s ! i) = p"
      using e pt_inv_valid(1) [OF inv e(1)] by simp
  qed
  show "\<forall>i<numBufs s. \<forall>j<numBufs s.
         valid (bufDescTable s ! i) \<and> valid (bufDescTable s ! j) \<and>
         file_ptr (bufDescTable s ! i) = file_ptr (bufDescTable s ! j) \<and>
         pageNo (bufDescTable s ! i) = pageNo (bufDescTable s ! j) \<longrightarrow> i = j"
  proof (intro allI impI)
    fix i j
    assume i: "i < numBufs s" and j: "j < numBufs s"
      and v: "valid (bufDescTable s ! i) \<and> valid (bufDescTable s ! j) \<and>
         file_ptr (bufDescTable s ! i) = file_ptr (bufDescTable s ! j) \<and>
         pageNo (bufDescTable s ! i) = pageNo (bufDescTable s ! j)"
    from v have vi: "valid (bufDescTable s ! i)" and vj: "valid (bufDescTable s ! j)"
      and e1: "file_ptr (bufDescTable s ! i) = file_ptr (bufDescTable s ! j)"
      and e2: "pageNo (bufDescTable s ! i) = pageNo (bufDescTable s ! j)"
      by blast+
    have "Some i = hashTable s (file_ptr (bufDescTable s ! i), pageNo (bufDescTable s ! i))"
      using pt_inv_valid(3) [OF inv i vi] by simp
    also have "\<dots> = hashTable s (file_ptr (bufDescTable s ! j), pageNo (bufDescTable s ! j))"
      by (simp only: e1 e2)
    also have "\<dots> = Some j"
      by (rule pt_inv_valid(3) [OF inv j vj])
    finally show "i = j" by simp
  qed
qed

theorem page_table_invariant_witness:
  "pt_inv pinned3 \<and> valid (bufDescTable pinned3 ! 1) \<and>
   hashTable pinned3 (file_ptr (bufDescTable pinned3 ! 1), pageNo (bufDescTable pinned3 ! 1)) =
     Some (frameNo (bufDescTable pinned3 ! 1)) \<and>
   hashTable pinned3 (1, 3) = Some 2 \<and>
   valid (bufDescTable pinned3 ! 2) \<and> frameNo (bufDescTable pinned3 ! 2) = 2 \<and>
   file_ptr (bufDescTable pinned3 ! 2) = 1 \<and> pageNo (bufDescTable pinned3 ! 2) = 3 \<and>
   pt_inv (state_after (DisposePageC 1 2) pinned3)"
proof -
  have new: "BufMgr_new (Suc 2) = BufMgr_new 3" by simp
  have a: "pt_inv pinned3"
    using page_table_invariant
      [of 2 "[ReadPageC 1 1 (page_of 1), ReadPageC 1 2 (page_of 2), ReadPageC 1 3 (page_of 3)]",
       THEN conjunct2, THEN conjunct1]
    unfolding new pinned3_def .
  note step = page_table_invariant
      [of 2 "[]" pinned3 "DisposePageC 1 2", THEN conjunct2, THEN conjunct2, THEN conjunct1,
       rule_format, OF a]
  note props = page_table_invariant
      [of 2 "[]" pinned3, THEN conjunct2, THEN conjunct2, THEN conjunct2, rule_format, OF a]
  have v: "(1::nat) < numBufs pinned3" "valid (bufDescTable pinned3 ! 1)" "hashTable pinned3 (1, 3) = Some 2"
    by (simp_all add: pinned3_def model_defs)
  note b = props [THEN conjunct1, rule_format, OF v(1) v(2)]
  note c = props [THEN conjunct2, THEN conjunct1, rule_format, OF v(3)]
  show ?thesis using a v(2,3) b c step by simp
qed

section \<open>disposePage\<close>

text \<open>
  C9. \<^verbatim>\<open>disposePage(file, pageNo)\<close> of a resident page returns (it never throws
  \<^verbatim>\<open>PagePinnedException\<close>: the pin count is not looked at); the frame's descriptor is
  cleared, the entry \<open>(file, pageNo)\<close> is removed from the page table, and one
  \<^verbatim>\<open>file->deletePage(pageNo)\<close> is made, the only call on a file. When the invariant of
  the page table holds, a \<^verbatim>\<open>readPage(file, pageNo)\<close> that follows finds no entry,
  returns a frame, and its last call on the file is a \<^verbatim>\<open>file->readPage(pageNo)\<close>
  made after the delete.
\<close>

theorem disposePage_resident:
  "(\<forall>fr. hashTable s (f, p) = Some fr \<and> fr < length (bufDescTable s) \<and> f \<noteq> NULL \<longrightarrow>
      disposePage f p s =
        (s\<lparr>bufDescTable := (bufDescTable s)[fr := Clear (bufDescTable s ! fr)],
           hashTable := (hashTable s)((f, p) := None),
           io := io s @ [DeletePage f p]\<rparr>, Inr ())) \<and>
   (\<forall>fr. pt_inv s \<and> hashTable s (f, p) = Some fr \<and> f \<noteq> NULL \<longrightarrow>
      hashTable (fst (disposePage f p s)) (f, p) = None \<and>
      (\<exists>fr'. snd (readPage f p fromFile (fst (disposePage f p s))) = Inr fr') \<and>
      (\<exists>w. io (fst (readPage f p fromFile (fst (disposePage f p s)))) =
            io s @ [DeletePage f p] @ w @ [ReadPage f p]))"
proof (intro conjI allI impI)
  fix fr assume "hashTable s (f, p) = Some fr \<and> fr < length (bufDescTable s) \<and> f \<noteq> NULL"
  then show "disposePage f p s =
        (s\<lparr>bufDescTable := (bufDescTable s)[fr := Clear (bufDescTable s ! fr)],
           hashTable := (hashTable s)((f, p) := None),
           io := io s @ [DeletePage f p]\<rparr>, Inr ())"
    by (simp add: disposePage_def ht_lookup_def ht_remove_def upd_desc_def)
next
  fix fr assume a: "pt_inv s \<and> hashTable s (f, p) = Some fr \<and> f \<noteq> NULL"
  then have inv: "pt_inv s" and hit: "hashTable s (f, p) = Some fr" and f: "f \<noteq> NULL"
    by blast+
  note e = pt_inv_entry [OF inv hit]
  define s' where "s' = fst (disposePage f p s)"
  have s': "s' = s\<lparr>bufDescTable := (bufDescTable s)[fr := Clear (bufDescTable s ! fr)],
           hashTable := (hashTable s)((f, p) := None),
           io := io s @ [DeletePage f p]\<rparr>"
    unfolding s'_def using hit e(2) f
    by (simp add: disposePage_def ht_lookup_def ht_remove_def upd_desc_def)
  have inv': "pt_inv s'" unfolding s'_def using inv by (rule pt_inv_disposePage)
  have free: "fr < numBufs s'" "\<not> valid (bufDescTable s' ! fr)"
    using e(1,2) by (simp_all add: s' Clear_def)
  have miss: "hashTable s' (f, p) = None" by (simp add: s')
  obtain s1 fr' where ab: "allocBuf s' = (s1, Inr fr')"
    using allocBuf_succeeds [OF inv' free] by (cases "allocBuf s'") auto
  have wf': "wf_mgr s'" using inv' by (simp add: pt_inv_def)
  note ch = allocBuf_chosen [OF wf' ab]
  note fr1 = allocBuf_frame_free [OF inv' ab]
  have lt: "fr' < length (bufPool s1)" using fr1(1,2) by (simp add: pt_inv_def wf_mgr_def)
  have miss1: "hashTable s1 (f, p) = None"
    using ch miss by (cases "valid (bufDescTable s' ! fr')") simp_all
  have rp: "readPage f p fromFile s' =
        (s1\<lparr>io := io s1 @ [ReadPage f p],
            bufPool := (bufPool s1)[fr' := fromFile],
            hashTable := (hashTable s1)((f, p) \<mapsto> fr'),
            bufDescTable := (bufDescTable s1)[fr' := Set_desc f p (bufDescTable s1 ! fr')]\<rparr>, Inr fr')"
    using miss ab f lt miss1
    by (simp add: readPage_def ht_lookup_def ht_insert_def upd_desc_def Let_def)
  obtain w where w: "io s1 = io s' @ w"
    using ch by (cases "valid (bufDescTable s' ! fr')") auto
  show "hashTable (fst (disposePage f p s)) (f, p) = None"
    using miss by (simp add: s'_def)
  show "\<exists>fr'. snd (readPage f p fromFile (fst (disposePage f p s))) = Inr fr'"
    using rp by (simp add: s'_def [symmetric])
  show "\<exists>w. io (fst (readPage f p fromFile (fst (disposePage f p s)))) =
            io s @ [DeletePage f p] @ w @ [ReadPage f p]"
    using rp w by (simp add: s'_def [symmetric]) (simp add: s')
qed

theorem disposePage_resident_witness:
  "pt_inv loaded8 \<and> hashTable loaded8 (1, 8) = Some 0 \<and>
   snd (disposePage 1 8 loaded8) = Inr () \<and>
   io (fst (disposePage 1 8 loaded8)) = io loaded8 @ [DeletePage 1 8] \<and>
   hashTable (fst (disposePage 1 8 loaded8)) (1, 8) = None \<and>
   snd (readPage 1 8 (page_of 8) (fst (disposePage 1 8 loaded8))) = Inr 1 \<and>
   io (fst (readPage 1 8 (page_of 8) (fst (disposePage 1 8 loaded8)))) =
     io loaded8 @ [DeletePage 1 8] @ [] @ [ReadPage 1 8] \<and>
   pinCnt (bufDescTable pinned3 ! 1) = 1 \<and> hashTable pinned3 (1, 2) = Some 1 \<and>
   snd (disposePage 1 2 pinned3) = Inr ()"
proof -
  have inv: "pt_inv loaded8"
    unfolding loaded8_def using pt_inv_new [of 2] by (intro pt_inv_run) simp
  have h: "hashTable loaded8 (1, 8) = Some 0" "(0::nat) < length (bufDescTable loaded8)"
    "(1::nat) \<noteq> NULL"
    by (simp_all add: loaded8_def model_defs)
  have h3: "hashTable pinned3 (1, 2) = Some 1" "(1::nat) < length (bufDescTable pinned3)"
    "pinCnt (bufDescTable pinned3 ! 1) = 1"
    by (simp_all add: pinned3_def model_defs)
  note t1 = disposePage_resident [of loaded8 1 8 "page_of 8", THEN conjunct1, rule_format, of 0]
  note t2 = disposePage_resident [of loaded8 1 8 "page_of 8", THEN conjunct2, rule_format, of 0]
  note t3 = disposePage_resident [of pinned3 1 2 "page_of 2", THEN conjunct1, rule_format, of 1]
  have a: "disposePage 1 8 loaded8 =
        (loaded8\<lparr>bufDescTable := (bufDescTable loaded8)[0 := Clear (bufDescTable loaded8 ! 0)],
           hashTable := (hashTable loaded8)((1, 8) := None),
           io := io loaded8 @ [DeletePage 1 8]\<rparr>, Inr ())"
    using t1 h by blast
  have b: "hashTable (fst (disposePage 1 8 loaded8)) (1, 8) = None"
    using t2 inv h by blast
  have c: "snd (disposePage 1 2 pinned3) = Inr ()"
    using t3 h3 h(3) by simp
  have r: "snd (readPage 1 8 (page_of 8) (fst (disposePage 1 8 loaded8))) = Inr 1"
    "io (fst (readPage 1 8 (page_of 8) (fst (disposePage 1 8 loaded8)))) =
     io loaded8 @ [DeletePage 1 8] @ [] @ [ReadPage 1 8]"
    by (simp_all add: loaded8_def model_defs)
  have a1: "snd (disposePage 1 8 loaded8) = Inr ()"
    "io (fst (disposePage 1 8 loaded8)) = io loaded8 @ [DeletePage 1 8]"
    using a by simp_all
  show ?thesis using inv h(1) a1 b r h3(3,1) c by (intro conjI)
qed

section \<open>The dirty flag\<close>

text \<open>
  C7. A \<^verbatim>\<open>unPinPage(file, pageNo, true)\<close> of a resident, pinned page leaves the dirty
  flag of its frame set. From a state in which the invariant of the page table holds
  and the dirty flag of frame \<open>i\<close> is set, the flag is still set after every sequence
  of \<^verbatim>\<open>readPage\<close> and \<^verbatim>\<open>unPinPage\<close> calls (with any dirty argument), unless one of
  them clears the descriptor of \<open>i\<close>, which among these calls only a \<^verbatim>\<open>readPage\<close>
  that misses and is given frame \<open>i\<close> by \<^verbatim>\<open>allocBuf\<close> does.
\<close>

theorem dirty_sticky:
  "(\<forall>t. hashTable s (f, p) = Some t \<and> t < length (bufDescTable s) \<and>
        pinCnt (bufDescTable s ! t) \<noteq> 0 \<longrightarrow>
        dirty (bufDescTable (fst (unPinPage f p True s)) ! t)) \<and>
   (pt_inv s \<and> i < numBufs s \<and> dirty (bufDescTable s ! i) \<and>
      list_all read_or_unpin cs \<and> \<not> cleared_in cs s i \<longrightarrow>
      dirty (bufDescTable (run cs s) ! i))"
proof (intro conjI allI impI)
  fix t assume "hashTable s (f, p) = Some t \<and> t < length (bufDescTable s) \<and>
        pinCnt (bufDescTable s ! t) \<noteq> 0"
  then show "dirty (bufDescTable (fst (unPinPage f p True s)) ! t)"
    by (simp add: unPinPage_def ht_lookup_def upd_desc_def Let_def)
next
  assume "pt_inv s \<and> i < numBufs s \<and> dirty (bufDescTable s ! i) \<and>
      list_all read_or_unpin cs \<and> \<not> cleared_in cs s i"
  then show "dirty (bufDescTable (run cs s) ! i)"
    using run_keeps_dirty [of s i cs] by blast
qed

theorem dirty_sticky_witness:
  "hashTable pinned3 (1, 2) = Some 1 \<and> pinCnt (bufDescTable pinned3 ! 1) = 1 \<and>
   \<not> dirty (bufDescTable pinned3 ! 1) \<and>
   dirty (bufDescTable (fst (unPinPage 1 2 True pinned3)) ! 1) \<and>
   pt_inv dirty2 \<and> dirty (bufDescTable dirty2 ! 1) \<and>
   \<not> cleared_in [ReadPageC 1 2 (page_of 2), UnPinPageC 1 2 False, UnPinPageC 1 1 False,
                  ReadPageC 1 1 (page_of 1)] dirty2 1 \<and>
   dirty (bufDescTable (run [ReadPageC 1 2 (page_of 2), UnPinPageC 1 2 False, UnPinPageC 1 1 False,
                  ReadPageC 1 1 (page_of 1)] dirty2) ! 1) \<and>
   cleared_in [ReadPageC 1 4 (page_of 4)] dirty2 1 \<and>
   \<not> dirty (bufDescTable (run [ReadPageC 1 4 (page_of 4)] dirty2) ! 1)"
proof -
  let ?cs = "[ReadPageC 1 2 (page_of 2), UnPinPageC 1 2 False, UnPinPageC 1 1 False,
              ReadPageC 1 1 (page_of 1)]"
  have inv3: "pt_inv pinned3"
    unfolding pinned3_def using pt_inv_new [of 2] by (intro pt_inv_run) simp
  have inv: "pt_inv dirty2"
    unfolding dirty2_def using inv3 by (rule pt_inv_run)
  have h3: "hashTable pinned3 (1, 2) = Some 1" "(1::nat) < length (bufDescTable pinned3)"
    "pinCnt (bufDescTable pinned3 ! 1) = 1" "\<not> dirty (bufDescTable pinned3 ! 1)"
    by (simp_all add: pinned3_def model_defs)
  have h: "(1::nat) < numBufs dirty2" "dirty (bufDescTable dirty2 ! 1)"
    "list_all read_or_unpin ?cs" "\<not> cleared_in ?cs dirty2 1"
    by (simp_all add: dirty2_def pinned3_def model_defs)
  have e: "cleared_in [ReadPageC 1 4 (page_of 4)] dirty2 1"
    "\<not> dirty (bufDescTable (run [ReadPageC 1 4 (page_of 4)] dirty2) ! 1)"
    by (simp_all add: dirty2_def pinned3_def model_defs)
  have a: "dirty (bufDescTable (fst (unPinPage 1 2 True pinned3)) ! 1)"
    using dirty_sticky [of pinned3 1 2, THEN conjunct1, rule_format, of 1] h3 by simp
  have b: "dirty (bufDescTable (run ?cs dirty2) ! 1)"
    using dirty_sticky [of dirty2 1 2 1 ?cs, THEN conjunct2] inv h by blast
  show ?thesis using h3(1,3,4) a inv h(2,4) b e by (intro conjI)
qed

section \<open>flushFile\<close>

text \<open>
  C6. \<^verbatim>\<open>flushFile(file)\<close> runs the loop over all \<open>numBufs\<close> frames (for
  \<open>numBufs < 2 ^ 31\<close>, where \<^verbatim>\<open>(int)numBufs\<close> is \<open>numBufs\<close>), in frame order: the scan of
  the first \<open>k + 1\<close> frames is the scan of the first \<open>k\<close> followed, when that did not
  throw, by the body at frame \<open>k\<close>. The body at a frame of another file does nothing;
  at a frame of the file it throws \<^verbatim>\<open>PagePinnedException\<close> when \<open>pinCnt\<close> is not 0,
  else \<^verbatim>\<open>BadBufferException\<close> when the frame is invalid, else it writes the pool slot
  to the file iff the frame is dirty, removes the page's entry from the page table and
  clears the descriptor. When the scan throws, it throws at some frame \<open>i\<close>, in the
  state \<open>s0\<close> that the scan of the frames below \<open>i\<close> has produced, and the exception
  leaves that state as it is: the descriptors of the file below \<open>i\<close> are cleared, their
  dirty pages written and their entries removed, and nothing is rolled back.
\<close>

theorem flushFile_scan:
  "(numBufs s < 2 ^ 31 \<longrightarrow> flushFile f s = flushFile_loop f 0 (numBufs s) s) \<and>
   (\<forall>k. flushFile_loop f 0 (Suc k) s =
      (case flushFile_loop f 0 k s of
         (s1, Inl e) \<Rightarrow> (s1, Inl e)
       | (s1, Inr u) \<Rightarrow> flushFrame f k s1)) \<and>
   (\<forall>i<length (bufDescTable s).
      (file_ptr (bufDescTable s ! i) \<noteq> f \<longrightarrow> flushFrame f i s = (s, Inr ())) \<and>
      (file_ptr (bufDescTable s ! i) = f \<and> pinCnt (bufDescTable s ! i) \<noteq> 0 \<longrightarrow>
         flushFrame f i s = (s, Inl (PagePinned (pageNo (bufDescTable s ! i)) i))) \<and>
      (file_ptr (bufDescTable s ! i) = f \<and> pinCnt (bufDescTable s ! i) = 0 \<and>
         \<not> valid (bufDescTable s ! i) \<longrightarrow>
         flushFrame f i s =
           (s, Inl (BadBuffer i (dirty (bufDescTable s ! i)) False (refbit (bufDescTable s ! i))))) \<and>
      (file_ptr (bufDescTable s ! i) = f \<and> pinCnt (bufDescTable s ! i) = 0 \<and>
         valid (bufDescTable s ! i) \<and> hashTable s (f, pageNo (bufDescTable s ! i)) \<noteq> None \<and>
         (dirty (bufDescTable s ! i) \<longrightarrow> f \<noteq> NULL \<and> i < length (bufPool s)) \<longrightarrow>
         flushFrame f i s =
           (s\<lparr>io := io s @ (if dirty (bufDescTable s ! i) then [WritePage f (bufPool s ! i)] else []),
              hashTable := (hashTable s)((f, pageNo (bufDescTable s ! i)) := None),
              bufDescTable := (bufDescTable s)[i := Clear (bufDescTable s ! i)]\<rparr>, Inr ()))) \<and>
   (\<forall>n s' e. flushFile_loop f 0 n s = (s', Inl e) \<longrightarrow>
      (\<exists>i<n. \<exists>s0. flushFile_loop f 0 i s = (s0, Inr ()) \<and> flushFrame f i s0 = (s', Inl e) \<and>
         (e \<noteq> Undefined \<longrightarrow> s' = s0) \<and>
         bufDescTable s0 = flushed_table f i (bufDescTable s) \<and>
         io s0 = io s @ flushed_writes f i s \<and>
         bufPool s0 = bufPool s \<and>
         hashTable s0 = hashTable s |` (- flushed_keys f i (bufDescTable s))))"
proof (intro conjI allI impI)
  show "flushFile f s = flushFile_loop f 0 (numBufs s) s" if "numBufs s < 2 ^ 31"
    using that by (simp add: flushFile_def int_numBufs_def)
next
  fix k show "flushFile_loop f 0 (Suc k) s =
      (case flushFile_loop f 0 k s of
         (s1, Inl e) \<Rightarrow> (s1, Inl e)
       | (s1, Inr u) \<Rightarrow> flushFrame f k s1)"
    by (rule flushFile_loop_snoc) simp
next
  fix i assume i: "i < length (bufDescTable s)"
  note c = flushFrame_cases [OF i, of f]
  show "flushFrame f i s = (s, Inr ())" if "file_ptr (bufDescTable s ! i) \<noteq> f"
    using c that by blast
  show "flushFrame f i s = (s, Inl (PagePinned (pageNo (bufDescTable s ! i)) i))"
    if "file_ptr (bufDescTable s ! i) = f \<and> pinCnt (bufDescTable s ! i) \<noteq> 0"
    using c that by blast
  show "flushFrame f i s =
           (s, Inl (BadBuffer i (dirty (bufDescTable s ! i)) False (refbit (bufDescTable s ! i))))"
    if "file_ptr (bufDescTable s ! i) = f \<and> pinCnt (bufDescTable s ! i) = 0 \<and>
         \<not> valid (bufDescTable s ! i)"
    using c that by blast
  show "flushFrame f i s =
           (s\<lparr>io := io s @ (if dirty (bufDescTable s ! i) then [WritePage f (bufPool s ! i)] else []),
              hashTable := (hashTable s)((f, pageNo (bufDescTable s ! i)) := None),
              bufDescTable := (bufDescTable s)[i := Clear (bufDescTable s ! i)]\<rparr>, Inr ())"
    if "file_ptr (bufDescTable s ! i) = f \<and> pinCnt (bufDescTable s ! i) = 0 \<and>
         valid (bufDescTable s ! i) \<and> hashTable s (f, pageNo (bufDescTable s ! i)) \<noteq> None \<and>
         (dirty (bufDescTable s ! i) \<longrightarrow> f \<noteq> NULL \<and> i < length (bufPool s))"
    using c that by blast
next
  fix n s' e assume fail: "flushFile_loop f 0 n s = (s', Inl e)"
  then obtain i s0 where i: "i < n" and pre: "flushFile_loop f 0 i s = (s0, Inr ())"
    and ff: "flushFrame f i s0 = (s', Inl e)"
    using flushFile_loop_failure by blast
  note p = flushFile_loop_prefix [OF pre]
  have same: "e \<noteq> Undefined \<longrightarrow> s' = s0"
    using flushFrame_error_state [OF ff] by blast
  show "\<exists>i<n. \<exists>s0. flushFile_loop f 0 i s = (s0, Inr ()) \<and> flushFrame f i s0 = (s', Inl e) \<and>
         (e \<noteq> Undefined \<longrightarrow> s' = s0) \<and>
         bufDescTable s0 = flushed_table f i (bufDescTable s) \<and>
         io s0 = io s @ flushed_writes f i s \<and>
         bufPool s0 = bufPool s \<and>
         hashTable s0 = hashTable s |` (- flushed_keys f i (bufDescTable s))"
    using i pre ff same p by (intro exI [of _ i] exI [of _ s0]) simp
qed

theorem flushFile_scan_witness:
  "numBufs unpinned1 < 2 ^ 31 \<and> flushFile 1 unpinned1 = flushFile_loop 1 0 (numBufs unpinned1) unpinned1 \<and>
   snd (flushFile 1 unpinned1) = Inl (PagePinned 2 1) \<and>
   io (fst (flushFile 1 unpinned1)) = io unpinned1 @ [WritePage 1 (page_of 1)] \<and>
   \<not> valid (bufDescTable (fst (flushFile 1 unpinned1)) ! 0) \<and>
   hashTable (fst (flushFile 1 unpinned1)) (1, 1) = None \<and>
   (\<exists>i<3. \<exists>s0. flushFile_loop 1 0 i unpinned1 = (s0, Inr ()) \<and>
       flushFrame 1 i s0 = (fst (flushFile 1 unpinned1), Inl (PagePinned 2 1)) \<and>
       fst (flushFile 1 unpinned1) = s0 \<and>
       io s0 = io unpinned1 @ flushed_writes 1 i unpinned1) \<and>
   flushFrame 1 1 unpinned1 = (unpinned1, Inl (PagePinned 2 1)) \<and>
   flushFrame NULL 0 (BufMgr_new 3) = (BufMgr_new 3, Inl (BadBuffer 0 False False False)) \<and>
   flushFrame 2 0 unpinned1 = (unpinned1, Inr ()) \<and>
   snd (flushFrame 1 0 unpinned1) = Inr ()"
proof -
  have n: "numBufs unpinned1 < 2 ^ 31" "numBufs unpinned1 = 3"
    by (simp_all add: unpinned1_def pinned3_def model_defs)
  have r: "snd (flushFile 1 unpinned1) = Inl (PagePinned 2 1)"
    "io (fst (flushFile 1 unpinned1)) = io unpinned1 @ [WritePage 1 (page_of 1)]"
    "\<not> valid (bufDescTable (fst (flushFile 1 unpinned1)) ! 0)"
    "hashTable (fst (flushFile 1 unpinned1)) (1, 1) = None"
    by (simp_all add: unpinned1_def pinned3_def model_defs)
  note a = flushFile_scan [of unpinned1 1, THEN conjunct1, rule_format, OF n(1)]
  have fail: "flushFile_loop 1 0 3 unpinned1 = (fst (flushFile 1 unpinned1), Inl (PagePinned 2 1))"
    using a r(1) n(2) by (simp add: prod_eq_iff)
  note d = flushFile_scan [of unpinned1 1, THEN conjunct2, THEN conjunct2, THEN conjunct2,
      rule_format, OF fail]
  have d': "\<exists>i<3. \<exists>s0. flushFile_loop 1 0 i unpinned1 = (s0, Inr ()) \<and>
       flushFrame 1 i s0 = (fst (flushFile 1 unpinned1), Inl (PagePinned 2 1)) \<and>
       fst (flushFile 1 unpinned1) = s0 \<and>
       io s0 = io unpinned1 @ flushed_writes 1 i unpinned1"
    using d by auto
  have f1: "(1::nat) < length (bufDescTable unpinned1)" "(0::nat) < length (bufDescTable unpinned1)"
    "file_ptr (bufDescTable unpinned1 ! 1) = 1 \<and> pinCnt (bufDescTable unpinned1 ! 1) \<noteq> 0"
    "pageNo (bufDescTable unpinned1 ! 1) = 2"
    "file_ptr (bufDescTable unpinned1 ! 0) \<noteq> 2"
    "file_ptr (bufDescTable unpinned1 ! 0) = 1 \<and> pinCnt (bufDescTable unpinned1 ! 0) = 0 \<and>
         valid (bufDescTable unpinned1 ! 0) \<and>
         hashTable unpinned1 (1, pageNo (bufDescTable unpinned1 ! 0)) \<noteq> None \<and>
         (dirty (bufDescTable unpinned1 ! 0) \<longrightarrow> (1::nat) \<noteq> NULL \<and> 0 < length (bufPool unpinned1))"
    by (simp_all add: unpinned1_def pinned3_def model_defs)
  have f0: "(0::nat) < length (bufDescTable (BufMgr_new 3))"
    "file_ptr (bufDescTable (BufMgr_new 3) ! 0) = NULL \<and> pinCnt (bufDescTable (BufMgr_new 3) ! 0) = 0 \<and>
      \<not> valid (bufDescTable (BufMgr_new 3) ! 0)"
    "dirty (bufDescTable (BufMgr_new 3) ! 0) = False" "refbit (bufDescTable (BufMgr_new 3) ! 0) = False"
    by (simp_all add: model_defs)
  note c1 = flushFile_scan [of unpinned1 1, THEN conjunct2, THEN conjunct2, THEN conjunct1,
      rule_format, OF f1(1)]
  note c0 = flushFile_scan [of unpinned1 1, THEN conjunct2, THEN conjunct2, THEN conjunct1,
      rule_format, OF f1(2)]
  note c2 = flushFile_scan [of unpinned1 2, THEN conjunct2, THEN conjunct2, THEN conjunct1,
      rule_format, OF f1(2)]
  note cn = flushFile_scan [of "BufMgr_new 3" NULL, THEN conjunct2, THEN conjunct2, THEN conjunct1,
      rule_format, OF f0(1)]
  have e1: "flushFrame 1 1 unpinned1 = (unpinned1, Inl (PagePinned 2 1))"
    using c1 f1(3,4) by simp
  have e2: "flushFrame NULL 0 (BufMgr_new 3) = (BufMgr_new 3, Inl (BadBuffer 0 False False False))"
    using cn f0(2,3,4) by simp
  have e3: "flushFrame 2 0 unpinned1 = (unpinned1, Inr ())"
    using c2 f1(5) by blast
  have e4: "snd (flushFrame 1 0 unpinned1) = Inr ()"
    using c0 f1(6) by simp
  show ?thesis using n(1) a r d' e1 e2 e3 e4 by (intro conjI)
qed

end
